theory Spec2Isabelle
  imports Main "HOL-Library.AList"
begin

section \<open>Time\<close>

text \<open>
  Go's \<^verbatim>\<open>time.Duration\<close> counts nanoseconds; instants are nanoseconds on the
  monotonic clock. Both are integers here, far from the 64-bit bounds.
\<close>

type_synonym time = int

definition Second :: int where
  "Second = 1000000000"

definition Minute :: int where
  "Minute = 60 * Second"

section \<open>Buffered channels\<close>

text \<open>
  A \<^verbatim>\<open>chan string\<close> made by \<^verbatim>\<open>make(chan string, n)\<close>: the buffered values
  in FIFO order, the capacity, and whether \<^verbatim>\<open>close\<close> has been called. The
  operations follow the Go language: closing a closed channel panics, sending on a closed
  channel panics (also inside a \<^verbatim>\<open>select\<close> with a \<^verbatim>\<open>default\<close>), and a receive
  from a closed channel first drains the buffer and then yields the zero value with
  \<^verbatim>\<open>ok = false\<close>.
\<close>

record chan =
  ch_buf :: "string list"
  ch_cap :: nat
  ch_closed :: bool

datatype panic = SendOnClosedChannel | CloseOfClosedChannel

definition make_chan :: "nat \<Rightarrow> chan" where
  "make_chan n = \<lparr>ch_buf = [], ch_cap = n, ch_closed = False\<rparr>"

definition close_chan :: "chan \<Rightarrow> panic + chan" where
  "close_chan c = (if ch_closed c then Inl CloseOfClosedChannel else Inr (c\<lparr>ch_closed := True\<rparr>))"

text \<open>\<^verbatim>\<open>select { case c <- m: default: }\<close>\<close>

definition select_send :: "chan \<Rightarrow> string \<Rightarrow> panic + chan" where
  "select_send c m =
     (if ch_closed c then Inl SendOnClosedChannel
      else if length (ch_buf c) < ch_cap c then Inr (c\<lparr>ch_buf := ch_buf c @ [m]\<rparr>)
      else Inr c)"

text \<open>
  \<^verbatim>\<open>msg, ok := <-c\<close>, when it can proceed: \<open>Some (msg, ok, c')\<close>; \<open>None\<close> when the
  receive blocks (open channel, empty buffer).
\<close>

definition chan_recv :: "chan \<Rightarrow> (string \<times> bool \<times> chan) option" where
  "chan_recv c =
     (case ch_buf c of
        m # ms \<Rightarrow> Some (m, True, c\<lparr>ch_buf := ms\<rparr>)
      | [] \<Rightarrow> if ch_closed c then Some ([], False, c) else None)"

section \<open>The rate limiter\<close>

text \<open>
  Modelled from the spec: \<^verbatim>\<open>rate.Limiter\<close> of \<^verbatim>\<open>golang.org/x/time/rate\<close>, whose
  source is not part of the repository. The spec describes it as a token bucket with a
  capacity (burst) and a steady refill rate, kept as a per-client counter plus a
  last-refill timestamp that is recomputed lazily on each check; the check consumes one
  token when one is available and never waits. Tokens are counted in units of
  \<open>1 / Second\<close> of a token, so that a rate of \<open>r\<close> tokens per second adds \<open>r\<close> units
  per nanosecond and one token is \<open>Second\<close> units. A fresh limiter holds a full bucket.
\<close>

record Limiter =
  lim_rate :: int
  lim_burst :: int
  lim_tokens :: int
  lim_last :: time

definition NewLimiter :: "int \<Rightarrow> int \<Rightarrow> Limiter" where
  "NewLimiter r b = \<lparr>lim_rate = r, lim_burst = b, lim_tokens = b * Second, lim_last = 0\<rparr>"

definition advance :: "Limiter \<Rightarrow> time \<Rightarrow> int" where
  "advance lim now =
     (let last = (if now < lim_last lim then now else lim_last lim);
          tokens = lim_tokens lim + (now - last) * lim_rate lim
      in if tokens > lim_burst lim * Second then lim_burst lim * Second else tokens)"

definition Allow :: "Limiter \<Rightarrow> time \<Rightarrow> bool \<times> Limiter" where
  "Allow lim now =
     (let tokens = advance lim now - Second
      in if 1 \<le> lim_burst lim \<and> 0 \<le> tokens
         then (True, lim\<lparr>lim_tokens := tokens, lim_last := now\<rparr>)
         else (False, lim))"

section \<open>The chat service\<close>

record Client =
  ID :: string
  Ch :: chan
  LastSeen :: time
  RateLimiter :: Limiter

text \<open>
  The registry \<^verbatim>\<open>streams map[string]*Client\<close> maps an id to a pointer. Pointers are
  indices into \<open>clients\<close>, the store of every \<^verbatim>\<open>Client\<close> allocated so far: a client
  deleted from the registry stays in the store, where a fan-out goroutine or a waiting
  \<^verbatim>\<open>GetMessage\<close> may still hold its pointer. The registry is an association list
  (Go iterates a map in no fixed order; nothing below depends on the order).
  \<open>goroutines\<close> holds the fan-out goroutines that \<^verbatim>\<open>SendMessage\<close> has started and
  that have not run yet, each with the client pointer and the message it captured.
\<close>

record chatService =
  streams :: "(string \<times> nat) list"
  clients :: "Client list"
  goroutines :: "(nat \<times> string) list"

datatype error =
    ERR_MISSING_USER_ID
  | ERR_ALREADY_JOINED
  | ERR_MISSING_FIELD
  | ERR_MESSAGE_TOO_LONG
  | ERR_SENDER_NOT_FOUND
  | ERR_RATE_LIMIT
  | ERR_NO_RECEIVERS
  | ERR_USER_NOT_FOUND
  | ERR_USER_DISCONNECTED
  | ERR_NO_MESSAGES

datatype response =
    JoinResponse bool string
  | SendMessageResponse bool string
  | LeaveResponse bool string
  | MessageResponse string

definition NewChatService :: chatService where
  "NewChatService = \<lparr>streams = [], clients = [], goroutines = []\<rparr>"

text \<open>Writing through a client pointer.\<close>

definition set_Ch :: "chatService \<Rightarrow> nat \<Rightarrow> chan \<Rightarrow> chatService" where
  "set_Ch s c ch = s\<lparr>clients := (clients s)[c := (clients s ! c)\<lparr>Ch := ch\<rparr>]\<rparr>"

definition set_LastSeen :: "chatService \<Rightarrow> nat \<Rightarrow> time \<Rightarrow> chatService" where
  "set_LastSeen s c t = s\<lparr>clients := (clients s)[c := (clients s ! c)\<lparr>LastSeen := t\<rparr>]\<rparr>"

definition set_RateLimiter :: "chatService \<Rightarrow> nat \<Rightarrow> Limiter \<Rightarrow> chatService" where
  "set_RateLimiter s c l = s\<lparr>clients := (clients s)[c := (clients s ! c)\<lparr>RateLimiter := l\<rparr>]\<rparr>"

subsection \<open>Join\<close>

definition Join :: "chatService \<Rightarrow> string \<Rightarrow> time \<Rightarrow> (error + response) \<times> chatService" where
  "Join s uid now =
     (if uid = [] then (Inl ERR_MISSING_USER_ID, s)
      else case map_of (streams s) uid of
        Some _ \<Rightarrow> (Inl ERR_ALREADY_JOINED, s)
      | None \<Rightarrow>
          (Inr (JoinResponse True ''User joined successfully''),
           s\<lparr>streams := (uid, length (clients s)) # streams s,
             clients := clients s @
               [\<lparr>ID = uid, Ch = make_chan 10, LastSeen = now, RateLimiter = NewLimiter 1 5\<rparr>]\<rparr>))"

subsection \<open>SendMessage\<close>

text \<open>
  The loop over the registry: it skips the sender, starts one goroutine per other client
  and counts them.
\<close>

fun fan_out :: "string \<Rightarrow> string \<Rightarrow> (string \<times> nat) list \<Rightarrow>
    (nat \<times> string) list \<times> nat \<Rightarrow> (nat \<times> string) list \<times> nat" where
  "fan_out frm message [] acc = acc"
| "fan_out frm message ((uid, client) # rest) (gs, sentCount) =
     (if uid = frm then fan_out frm message rest (gs, sentCount)
      else fan_out frm message rest (gs @ [(client, message)], sentCount + 1))"

definition SendMessage ::
    "chatService \<Rightarrow> string \<Rightarrow> string \<Rightarrow> time \<Rightarrow> (error + response) \<times> chatService" where
  "SendMessage s frm msg now =
     (if frm = [] \<or> msg = [] then (Inl ERR_MISSING_FIELD, s)
      else if length msg > 500 then (Inl ERR_MESSAGE_TOO_LONG, s)
      else case map_of (streams s) frm of
        None \<Rightarrow> (Inl ERR_SENDER_NOT_FOUND, s)
      | Some sender \<Rightarrow>
          (let (ok, lim) = Allow (RateLimiter (clients s ! sender)) now;
               s1 = set_RateLimiter s sender lim
           in if \<not> ok then (Inl ERR_RATE_LIMIT, s1)
              else
                (let message = frm @ '': '' @ msg;
                     (gs, sentCount) = fan_out frm message (streams s1) (goroutines s1, 0);
                     s2 = s1\<lparr>goroutines := gs\<rparr>
                 in if sentCount = 0 then (Inl ERR_NO_RECEIVERS, s2)
                    else (Inr (SendMessageResponse True ''Message broadcasted to clients''), s2))))"

text \<open>The body of one fan-out goroutine, and the scheduler running the \<open>k\<close>-th pending one.\<close>

definition run_goroutine :: "chatService \<Rightarrow> nat \<times> string \<Rightarrow> panic + chatService" where
  "run_goroutine s g =
     (case g of (c, message) \<Rightarrow>
        (case select_send (Ch (clients s ! c)) message of
           Inl p \<Rightarrow> Inl p
         | Inr ch \<Rightarrow> Inr (set_Ch s c ch)))"

definition deliver :: "chatService \<Rightarrow> nat \<Rightarrow> panic + chatService" where
  "deliver s k =
     (if k < length (goroutines s)
      then run_goroutine (s\<lparr>goroutines := take k (goroutines s) @ drop (Suc k) (goroutines s)\<rparr>)
             (goroutines s ! k)
      else Inr s)"

text \<open>
  Go fixes no order among the pending goroutines. A schedule lists, step by step, which of
  the goroutines pending at that step runs next; every order of running them is the
  result of some schedule.
\<close>

fun schedule :: "chatService \<Rightarrow> nat list \<Rightarrow> panic + chatService" where
  "schedule s [] = Inr s"
| "schedule s (k # ks) = (case deliver s k of Inl p \<Rightarrow> Inl p | Inr s' \<Rightarrow> schedule s' ks)"

subsection \<open>Leave\<close>

text \<open>
  The entry is deleted under the write lock and the channel closed right after; the two
  are one step here. Only the call that deleted the entry closes the channel.
\<close>

definition Leave :: "chatService \<Rightarrow> string \<Rightarrow> panic + ((error + response) \<times> chatService)" where
  "Leave s uid =
     (if uid = [] then Inr (Inl ERR_MISSING_USER_ID, s)
      else case map_of (streams s) uid of
        None \<Rightarrow> Inr (Inl ERR_USER_NOT_FOUND, s)
      | Some client \<Rightarrow>
          (let s1 = s\<lparr>streams := AList.delete uid (streams s)\<rparr>
           in case close_chan (Ch (clients s1 ! client)) of
                Inl p \<Rightarrow> Inl p
              | Inr ch \<Rightarrow>
                  Inr (Inr (LeaveResponse True ''User disconnected successfully''),
                       set_Ch s1 client ch)))"

subsection \<open>The cleanup loop\<close>

text \<open>
  One tick of the ticker in \<^verbatim>\<open>startCleanupLoop\<close>, at time \<open>now\<close>: the loop over the
  registry, holding the write lock.
\<close>

fun sweep :: "(string \<times> nat) list \<Rightarrow> time \<Rightarrow> chatService \<Rightarrow> panic + chatService" where
  "sweep [] now s = Inr s"
| "sweep ((uid, client) # rest) now s =
     (if now - LastSeen (clients s ! client) > 5 * Minute
      then (case close_chan (Ch (clients s ! client)) of
              Inl p \<Rightarrow> Inl p
            | Inr ch \<Rightarrow>
                sweep rest now ((set_Ch s client ch)\<lparr>streams := AList.delete uid (streams s)\<rparr>))
      else sweep rest now s)"

definition cleanup :: "chatService \<Rightarrow> time \<Rightarrow> panic + chatService" where
  "cleanup s now = sweep (streams s) now s"

subsection \<open>GetMessage\<close>

text \<open>
  What other goroutines do while a \<^verbatim>\<open>GetMessage\<close> waits in its \<^verbatim>\<open>select\<close>: each
  action runs at its instant and does not wait itself.
\<close>

datatype action =
    DoJoin string
  | DoSendMessage string string
  | DoLeave string
  | RunGoroutine nat
  | CleanupTick

fun step :: "chatService \<Rightarrow> time \<Rightarrow> action \<Rightarrow> panic + chatService" where
  "step s t (DoJoin uid) = Inr (snd (Join s uid t))"
| "step s t (DoSendMessage frm msg) = Inr (snd (SendMessage s frm msg t))"
| "step s t (DoLeave uid) = (case Leave s uid of Inl p \<Rightarrow> Inl p | Inr (_, s') \<Rightarrow> Inr s')"
| "step s t (RunGoroutine k) = deliver s k"
| "step s t CleanupTick = cleanup s t"

text \<open>
  The \<^verbatim>\<open>select\<close> of \<^verbatim>\<open>GetMessage\<close> on the channel of the client at pointer
  \<open>client\<close>, with the timer firing at \<open>deadline\<close>. \<open>env\<close> lists, in order and with their
  instants, the actions of other goroutines during the wait. The receive case is taken as
  soon as the channel can be received from; while it cannot, the next action runs, unless
  the deadline comes first (an action at the very instant of the deadline counts as
  after it). A panic in another goroutine ends the process.
\<close>

fun await :: "chatService \<Rightarrow> nat \<Rightarrow> time \<Rightarrow> (time \<times> action) list \<Rightarrow>
    panic + ((error + response) \<times> chatService)" where
  "await s client deadline env =
     (case chan_recv (Ch (clients s ! client)) of
        Some (msg, ok, ch) \<Rightarrow>
          if \<not> ok then Inr (Inl ERR_USER_DISCONNECTED, set_Ch s client ch)
          else Inr (Inr (MessageResponse msg), set_Ch s client ch)
      | None \<Rightarrow>
          (case env of
             [] \<Rightarrow> Inr (Inl ERR_NO_MESSAGES, s)
           | (t, a) # rest \<Rightarrow>
               if deadline \<le> t then Inr (Inl ERR_NO_MESSAGES, s)
               else (case step s t a of
                       Inl p \<Rightarrow> Inl p
                     | Inr s' \<Rightarrow> await s' client deadline rest)))"

text \<open>The actions of other goroutines, all run.\<close>

fun steps :: "chatService \<Rightarrow> (time \<times> action) list \<Rightarrow> panic + chatService" where
  "steps s [] = Inr s"
| "steps s ((t, a) # rest) = (case step s t a of Inl p \<Rightarrow> Inl p | Inr s' \<Rightarrow> steps s' rest)"

text \<open>
  The lookup happens under the read lock, which is released before anything else is done
  (\<^verbatim>\<open>RUnlock\<close>, line 162). The write to \<^verbatim>\<open>LastSeen\<close> (line 168) and the
  \<^verbatim>\<open>select\<close> come later and hold no lock, so other goroutines, the cleanup loop
  and \<^verbatim>\<open>Leave\<close> among them, can run in between: \<open>gap\<close> lists their actions, in
  order and with their instants. The call keeps the pointer it looked up, whatever
  happens to the registry meanwhile. \<open>now\<close> is the value of \<^verbatim>\<open>time.Now()\<close>
  written to \<^verbatim>\<open>LastSeen\<close>; the timer of \<^verbatim>\<open>time.After\<close> fires ten seconds
  later, and \<open>env\<close> lists the actions of other goroutines during the wait.
\<close>

definition GetMessage :: "chatService \<Rightarrow> string \<Rightarrow> (time \<times> action) list \<Rightarrow> time \<Rightarrow>
    (time \<times> action) list \<Rightarrow> panic + ((error + response) \<times> chatService)" where
  "GetMessage s uid gap now env =
     (if uid = [] then Inr (Inl ERR_MISSING_USER_ID, s)
      else case map_of (streams s) uid of
        None \<Rightarrow> Inr (Inl ERR_USER_NOT_FOUND, s)
      | Some client \<Rightarrow>
          (case steps s gap of
             Inl p \<Rightarrow> Inl p
           | Inr s1 \<Rightarrow> await (set_LastSeen s1 client now) client (now + 10 * Second) env))"

subsection \<open>Sequences of requests\<close>

text \<open>
  A request is an action that returns at once, or a \<^verbatim>\<open>GetMessage\<close> call together
  with the actions of other goroutines between its lookup and its write to
  \<^verbatim>\<open>LastSeen\<close>, the instant of that write, and the actions of other goroutines
  during its wait. The instant of a request is the one at which it is made: for a
  \<^verbatim>\<open>GetMessage\<close> call, that of the lookup. A run serves the requests one after the
  other; a panic ends it.
\<close>

datatype request =
    Act action
  | Poll string "(time \<times> action) list" time "(time \<times> action) list"

fun serve :: "chatService \<Rightarrow> time \<Rightarrow> request \<Rightarrow> panic + chatService" where
  "serve s t (Act a) = step s t a"
| "serve s t (Poll uid gap now env) =
     (case GetMessage s uid gap now env of Inl p \<Rightarrow> Inl p | Inr (_, s') \<Rightarrow> Inr s')"

fun run :: "chatService \<Rightarrow> (time \<times> request) list \<Rightarrow> panic + chatService" where
  "run s [] = Inr s"
| "run s ((t, r) # rest) = (case serve s t r of Inl p \<Rightarrow> Inl p | Inr s' \<Rightarrow> run s' rest)"

text \<open>
  The mailbox of the client at pointer \<open>c\<close> holds no message and is open; and it stays
  so before, between and after the given actions, none of which panics.
\<close>

definition idle :: "chatService \<Rightarrow> nat \<Rightarrow> bool" where
  "idle s c \<longleftrightarrow> ch_buf (Ch (clients s ! c)) = [] \<and> \<not> ch_closed (Ch (clients s ! c))"

fun idle_during :: "chatService \<Rightarrow> nat \<Rightarrow> (time \<times> action) list \<Rightarrow> bool" where
  "idle_during s c [] = idle s c"
| "idle_during s c ((t, a) # rest) =
     (idle s c \<and> (case step s t a of Inl p \<Rightarrow> False | Inr s' \<Rightarrow> idle_during s' c rest))"

text \<open>Several \<^verbatim>\<open>SendMessage\<close> calls of one sender, with the results in call order.\<close>

fun send_all :: "chatService \<Rightarrow> string \<Rightarrow> (time \<times> string) list \<Rightarrow>
    (error + response) list \<times> chatService" where
  "send_all s frm [] = ([], s)"
| "send_all s frm ((t, msg) # rest) =
     (case SendMessage s frm msg t of (r, s1) \<Rightarrow>
        (case send_all s1 frm rest of (rs, s2) \<Rightarrow> (r # rs, s2)))"

definition succeeded :: "(error + response) list \<Rightarrow> nat" where
  "succeeded rs = length (filter (\<lambda>r. \<not> isl r) rs)"

text \<open>
  Several \<^verbatim>\<open>GetMessage\<close> calls of one client, each on its own (nothing else runs
  during the call), with the results in call order.
\<close>

fun receive_all :: "chatService \<Rightarrow> string \<Rightarrow> time list \<Rightarrow>
    (error + response) list \<times> chatService" where
  "receive_all s uid [] = ([], s)"
| "receive_all s uid (t # ts) =
     (case GetMessage s uid [] t [] of
        Inl p \<Rightarrow> ([], s)
      | Inr (r, s1) \<Rightarrow> (case receive_all s1 uid ts of (rs, s2) \<Rightarrow> (r # rs, s2)))"

text \<open>
  The ticker of \<^verbatim>\<open>startCleanupLoop\<close>, created at \<open>start\<close> with a period of one
  minute, fires at \<open>tick start k\<close> for \<open>k = 1, 2, \<dots>\<close>; \<open>next_tick start t\<close> is the
  number of its first firing after the instant \<open>t\<close>.
\<close>

definition tick :: "time \<Rightarrow> nat \<Rightarrow> time" where
  "tick start k = start + int k * (1 * Minute)"

definition next_tick :: "time \<Rightarrow> time \<Rightarrow> nat" where
  "next_tick start t = nat ((t - start) div (1 * Minute)) + 1"

section \<open>Well-formed states\<close>

text \<open>
  What \<^verbatim>\<open>Join\<close> establishes for a client and every operation keeps: the mailbox
  has capacity 10 and never holds more, and the limiter has rate 1 and burst 5 with a
  token count between empty and full.
\<close>

definition client_ok :: "Client \<Rightarrow> bool" where
  "client_ok c \<longleftrightarrow>
     ch_cap (Ch c) = 10 \<and> length (ch_buf (Ch c)) \<le> 10 \<and>
     lim_rate (RateLimiter c) = 1 \<and> lim_burst (RateLimiter c) = 5 \<and>
     0 \<le> lim_tokens (RateLimiter c) \<and> lim_tokens (RateLimiter c) \<le> 5 * Second"

text \<open>A registry entry: a non-empty id, bound to an allocated client with an open mailbox.\<close>

definition registered_ok :: "chatService \<Rightarrow> string \<times> nat \<Rightarrow> bool" where
  "registered_ok s e \<longleftrightarrow>
     fst e \<noteq> [] \<and> snd e < length (clients s) \<and> ID (clients s ! snd e) = fst e \<and>
     \<not> ch_closed (Ch (clients s ! snd e))"

text \<open>
  The registry has one entry per id and no two ids share a client; every goroutine holds
  an allocated client.
\<close>

definition invariant :: "chatService \<Rightarrow> bool" where
  "invariant s \<longleftrightarrow>
     distinct (map fst (streams s)) \<and> distinct (map snd (streams s)) \<and>
     list_all (registered_ok s) (streams s) \<and> list_all client_ok (clients s) \<and>
     list_all (\<lambda>g. fst g < length (clients s)) (goroutines s)"

text \<open>
  The client \<open>uid\<close> is active enough along a run: at every cleanup tick the latest
  write of one of its \<^verbatim>\<open>GetMessage\<close> calls to \<^verbatim>\<open>LastSeen\<close> (\<open>seen\<close> before
  the first one) is at most five minutes old, and it does not leave. A tick between the
  lookup of a call and its write comes before that write.
\<close>

fun act_ok :: "string \<Rightarrow> time \<Rightarrow> time \<times> action \<Rightarrow> bool" where
  "act_ok uid seen (t, CleanupTick) = (t - seen \<le> 5 * Minute)"
| "act_ok uid seen (t, DoLeave u) = (u \<noteq> uid)"
| "act_ok uid seen (t, _) = True"

fun polls_in_time :: "string \<Rightarrow> time \<Rightarrow> (time \<times> request) list \<Rightarrow> bool" where
  "polls_in_time uid seen [] = True"
| "polls_in_time uid seen ((t, Act a) # rest) =
     (act_ok uid seen (t, a) \<and> polls_in_time uid seen rest)"
| "polls_in_time uid seen ((t, Poll u gap now env) # rest) =
     (list_all (act_ok uid seen) gap \<and>
      (if u = uid then list_all (act_ok uid now) env \<and> polls_in_time uid now rest
       else list_all (act_ok uid seen) env \<and> polls_in_time uid seen rest))"

section \<open>Characters and bytes\<close>

text \<open>
  A Go string is a sequence of bytes, and \<^verbatim>\<open>len\<close> counts them. The characters of a
  UTF-8 text are its code points: each starts at a byte that is not a continuation byte
  (\<open>10xxxxxx\<close>).
\<close>

definition is_continuation :: "char \<Rightarrow> bool" where
  "is_continuation c \<longleftrightarrow> 128 \<le> (of_char c :: nat) \<and> (of_char c :: nat) < 192"

definition rune_count :: "string \<Rightarrow> nat" where
  "rune_count s = length (filter (\<lambda>c. \<not> is_continuation c) s)"

text \<open>\<open>e\<close> with an acute accent, U+00E9: two bytes in UTF-8.\<close>

definition e_acute :: string where
  "e_acute = [char_of (195 :: nat), char_of (169 :: nat)]"

section \<open>Example states and messages\<close>

text \<open>The service after \<^verbatim>\<open>Join("a")\<close> and \<^verbatim>\<open>Join("b")\<close> at time 0.\<close>

definition two_clients :: chatService where
  "two_clients = snd (Join (snd (Join NewChatService ''a'' 0)) ''b'' 0)"

text \<open>
  The same service after \<^verbatim>\<open>SendMessage("a", "hi")\<close> at time 1, with the goroutine
  of that broadcast still pending.
\<close>

definition a_sent :: chatService where
  "a_sent = snd (SendMessage two_clients ''a'' ''hi'' 1)"

text \<open>The service after \<^verbatim>\<open>Join("a")\<close> at time 0.\<close>

definition one_client :: chatService where
  "one_client = snd (Join NewChatService ''a'' 0)"

text \<open>
  One round: \<open>a\<close> broadcasts \<open>msg\<close> at second \<open>k\<close>, both fan-out goroutines run,
  and \<open>c\<close> takes its copy. After \<open>a\<close>, \<open>b\<close> and \<open>c\<close> joined and ten rounds a
  second apart, the mailbox of \<open>b\<close>, which never polled, holds ten messages and that
  of \<open>c\<close> none.
\<close>

definition round :: "nat \<Rightarrow> (time \<times> request) list" where
  "round k =
     [(int k * Second, Act (DoSendMessage ''a'' ''old'')),
      (int k * Second, Act (RunGoroutine 0)),
      (int k * Second, Act (RunGoroutine 0)),
      (int k * Second, Poll ''c'' [] (int k * Second) [])]"

definition b_full :: chatService where
  "b_full =
     projr (run NewChatService
       ([(0, Act (DoJoin ''a'')), (0, Act (DoJoin ''b'')), (0, Act (DoJoin ''c''))] @
        concat (map round [1..<11])))"

text \<open>
  After nine such rounds the mailbox of \<open>b\<close> holds nine messages. Then \<open>a\<close>
  broadcasts \<open>x\<close> at second 10, and the two goroutines of that broadcast are still
  pending.
\<close>

definition b_nine_pending :: chatService where
  "b_nine_pending =
     projr (run NewChatService
       ([(0, Act (DoJoin ''a'')), (0, Act (DoJoin ''b'')), (0, Act (DoJoin ''c''))] @
        concat (map round [1..<10]) @ [(10 * Second, Act (DoSendMessage ''a'' ''x''))]))"

text \<open>
  A run in which \<open>b\<close> polls at minutes 4 and 8 and the cleanup loop ticks at minutes
  5, 6, 9 and 13.
\<close>

definition polling :: "(time \<times> request) list" where
  "polling =
     [(4 * Minute, Poll ''b'' [] (4 * Minute) []), (5 * Minute, Act CleanupTick),
      (6 * Minute, Act CleanupTick), (8 * Minute, Poll ''b'' [] (8 * Minute) []),
      (9 * Minute, Act CleanupTick), (13 * Minute, Act CleanupTick)]"

text \<open>
  The service after \<open>b\<close> joined at time 0 and polled at minute 4. Then \<open>b\<close> calls
  \<^verbatim>\<open>GetMessage\<close> again at minute 9, five minutes after its last call; the cleanup
  loop ticks one nanosecond after the lookup of that call, and the call writes
  \<^verbatim>\<open>LastSeen\<close> one nanosecond after the tick.
\<close>

definition b_polled :: chatService where
  "b_polled =
     projr (run NewChatService
       [(0, Act (DoJoin ''b'')), (4 * Minute, Poll ''b'' [] (4 * Minute) [])])"

definition tick_in_window :: "(time \<times> action) list" where
  "tick_in_window = [(9 * Minute + 1, CleanupTick)]"

text \<open>A message of \<open>n\<close> bytes.\<close>

definition filler :: "nat \<Rightarrow> string" where
  "filler n = replicate n (CHR ''x'')"

section \<open>Validation in SendMessage\<close>

lemma SendMessage_missing_field_iff:
  "fst (SendMessage s frm msg now) = Inl ERR_MISSING_FIELD \<longleftrightarrow> frm = [] \<or> msg = []"
  by (simp add: SendMessage_def Let_def split: option.splits prod.splits)

lemma SendMessage_too_long_iff:
  "fst (SendMessage s frm msg now) = Inl ERR_MESSAGE_TOO_LONG \<longleftrightarrow>
     frm \<noteq> [] \<and> msg \<noteq> [] \<and> 500 < length msg"
  by (simp add: SendMessage_def Let_def split: option.splits prod.splits)

lemma SendMessage_valid_cases:
  assumes "frm \<noteq> []" "msg \<noteq> []" "length msg \<le> 500"
  shows "case map_of (streams s) frm of
           None \<Rightarrow> fst (SendMessage s frm msg now) = Inl ERR_SENDER_NOT_FOUND
         | Some sender \<Rightarrow>
             fst (SendMessage s frm msg now) \<in>
               {Inl ERR_RATE_LIMIT, Inl ERR_NO_RECEIVERS,
                Inr (SendMessageResponse True ''Message broadcasted to clients'')}"
  using assms by (simp add: SendMessage_def Let_def split: option.splits prod.splits)

text \<open>
  Claim C4. \<^verbatim>\<open>SendMessage\<close> fails with \<open>ERR_MISSING_FIELD\<close> exactly when
  \<open>from\<close> or \<open>message\<close> is empty, and with \<open>ERR_MESSAGE_TOO_LONG\<close> exactly when
  both are non-empty and the message is longer than 500 (so 501 fails and 500 passes).
  Past validation the sender lookup decides: an unknown sender gives
  \<open>ERR_SENDER_NOT_FOUND\<close>, a known one reaches the rate limiter and the fan-out.
\<close>

theorem C4_SendMessage_validation:
  "(fst (SendMessage s frm msg now) = Inl ERR_MISSING_FIELD \<longleftrightarrow> frm = [] \<or> msg = []) \<and>
   (fst (SendMessage s frm msg now) = Inl ERR_MESSAGE_TOO_LONG \<longleftrightarrow>
      frm \<noteq> [] \<and> msg \<noteq> [] \<and> 500 < length msg) \<and>
   (frm \<noteq> [] \<and> msg \<noteq> [] \<and> length msg \<le> 500 \<longrightarrow>
      (case map_of (streams s) frm of
         None \<Rightarrow> fst (SendMessage s frm msg now) = Inl ERR_SENDER_NOT_FOUND
       | Some sender \<Rightarrow>
           fst (SendMessage s frm msg now) \<in>
             {Inl ERR_RATE_LIMIT, Inl ERR_NO_RECEIVERS,
              Inr (SendMessageResponse True ''Message broadcasted to clients'')}))"
proof (intro conjI impI)
  show "fst (SendMessage s frm msg now) = Inl ERR_MISSING_FIELD \<longleftrightarrow> frm = [] \<or> msg = []"
    by (rule SendMessage_missing_field_iff)
  show "fst (SendMessage s frm msg now) = Inl ERR_MESSAGE_TOO_LONG \<longleftrightarrow>
      frm \<noteq> [] \<and> msg \<noteq> [] \<and> 500 < length msg"
    by (rule SendMessage_too_long_iff)
next
  assume "frm \<noteq> [] \<and> msg \<noteq> [] \<and> length msg \<le> 500"
  then show "case map_of (streams s) frm of
         None \<Rightarrow> fst (SendMessage s frm msg now) = Inl ERR_SENDER_NOT_FOUND
       | Some sender \<Rightarrow>
           fst (SendMessage s frm msg now) \<in>
             {Inl ERR_RATE_LIMIT, Inl ERR_NO_RECEIVERS,
              Inr (SendMessageResponse True ''Message broadcasted to clients'')}"
    using SendMessage_valid_cases [of frm msg s now] by simp
qed

text \<open>
  At the boundary, in the service with clients \<open>a\<close> and \<open>b\<close>: 501 bytes fail, 500
  bytes are broadcast.
\<close>

lemma length_filler [simp]: "length (filler n) = n"
  by (simp add: filler_def)

lemma filler_eq_Nil [simp]: "filler n = [] \<longleftrightarrow> n = 0"
  by (simp add: filler_def)

theorem C4_SendMessage_validation_witness:
  "fst (SendMessage two_clients ''a'' (filler 501) 1) = Inl ERR_MESSAGE_TOO_LONG \<and>
   fst (SendMessage two_clients ''a'' [] 1) = Inl ERR_MISSING_FIELD \<and>
   fst (SendMessage two_clients [] ''hi'' 1) = Inl ERR_MISSING_FIELD \<and>
   fst (SendMessage two_clients ''c'' (filler 500) 1) = Inl ERR_SENDER_NOT_FOUND \<and>
   fst (SendMessage two_clients ''a'' (filler 500) 1) =
     Inr (SendMessageResponse True ''Message broadcasted to clients'')"
proof -
  have 1: "fst (SendMessage two_clients ''a'' (filler 501) 1) = Inl ERR_MESSAGE_TOO_LONG"
    using C4_SendMessage_validation [of two_clients "''a''" "filler 501" 1] by simp
  have 3: "fst (SendMessage two_clients ''a'' [] 1) = Inl ERR_MISSING_FIELD"
    using C4_SendMessage_validation [of two_clients "''a''" "[]" 1] by simp
  have 4: "fst (SendMessage two_clients [] ''hi'' 1) = Inl ERR_MISSING_FIELD"
    using C4_SendMessage_validation [of two_clients "[]" "''hi''" 1] by simp
  have c: "map_of (streams two_clients) ''c'' = None" by code_simp
  have 5: "fst (SendMessage two_clients ''c'' (filler 500) 1) = Inl ERR_SENDER_NOT_FOUND"
    using C4_SendMessage_validation [of two_clients "''c''" "filler 500" 1] c
    by simp
  have 2: "fst (SendMessage two_clients ''a'' (filler 500) 1) =
     Inr (SendMessageResponse True ''Message broadcasted to clients'')"
    by code_simp
  from 1 2 3 4 5 show ?thesis by simp
qed

section \<open>The length limit counts bytes\<close>

lemma rune_count_e_acute: "rune_count (concat (replicate n e_acute)) = n"
  by (induction n) (simp_all add: rune_count_def e_acute_def is_continuation_def)

lemma length_e_acute: "length (concat (replicate n e_acute)) = 2 * n"
  by (induction n) (simp_all add: e_acute_def)

text \<open>
  Claim C10. The limit of \<^verbatim>\<open>SendMessage\<close> is on \<^verbatim>\<open>len(req.Message)\<close>, a number of
  bytes: the message of 251 letters \<open>e\<close> with an acute accent has 251 characters and
  502 bytes, and every non-empty sender gets \<open>ERR_MESSAGE_TOO_LONG\<close> for it.
\<close>

theorem C10_length_counts_bytes:
  "\<exists>msg. rune_count msg \<le> 500 \<and> 500 < length msg \<and>
     (\<forall>s c frm now. fst (SendMessage s (c # frm) msg now) = Inl ERR_MESSAGE_TOO_LONG)"
proof (intro exI conjI allI)
  let ?m = "concat (replicate 251 e_acute)"
  show "rune_count ?m \<le> 500" by (simp add: rune_count_e_acute)
  show "500 < length ?m" by (simp add: length_e_acute)
  have "?m \<noteq> []" using length_e_acute [of 251] by auto
  then show "fst (SendMessage s (c # frm) ?m now) = Inl ERR_MESSAGE_TOO_LONG" for s c frm now
    by (simp add: SendMessage_too_long_iff length_e_acute)
qed

section \<open>A fan-out goroutine and a closed mailbox\<close>

text \<open>
  Claim C5 (the code does not do this). \<open>a\<close> and \<open>b\<close> join, \<open>a\<close> sends, which starts
  the goroutine delivering to \<open>b\<close>; \<open>b\<close> leaves, which closes its mailbox, before that
  goroutine runs. The goroutine's \<^verbatim>\<open>select\<close> then sends on a closed channel: the
  process panics instead of dropping the message. The same happens when the cleanup loop
  closes the mailbox: \<open>a\<close> polls at minute 4 and sends at minute 6, the tick at minute 6
  removes \<open>b\<close>, idle since it joined, and the goroutine runs after the tick.
\<close>

theorem C5_send_on_closed_channel_panics:
  "run NewChatService
     [(0, Act (DoJoin ''a'')), (0, Act (DoJoin ''b'')), (1, Act (DoSendMessage ''a'' ''hi'')),
      (2, Act (DoLeave ''b'')), (3, Act (RunGoroutine 0))] = Inl SendOnClosedChannel \<and>
   run NewChatService
     [(0, Act (DoJoin ''a'')), (0, Act (DoJoin ''b'')), (4 * Minute, Poll ''a'' [] (4 * Minute) []),
      (6 * Minute, Act (DoSendMessage ''a'' ''hi'')), (6 * Minute, Act CleanupTick),
      (6 * Minute, Act (RunGoroutine 0))] = Inl SendOnClosedChannel"
  by code_simp

section \<open>Writing through a pointer\<close>

lemma set_Ch_frame [simp]:
  "streams (set_Ch s c ch) = streams s"
  "goroutines (set_Ch s c ch) = goroutines s"
  "length (clients (set_Ch s c ch)) = length (clients s)"
  by (simp_all add: set_Ch_def)

lemma set_LastSeen_frame [simp]:
  "streams (set_LastSeen s c t) = streams s"
  "goroutines (set_LastSeen s c t) = goroutines s"
  "length (clients (set_LastSeen s c t)) = length (clients s)"
  by (simp_all add: set_LastSeen_def)

lemma set_RateLimiter_frame [simp]:
  "streams (set_RateLimiter s c l) = streams s"
  "goroutines (set_RateLimiter s c l) = goroutines s"
  "length (clients (set_RateLimiter s c l)) = length (clients s)"
  by (simp_all add: set_RateLimiter_def)

lemma set_Ch_nth:
  "clients (set_Ch s c ch) ! q =
     (if q = c \<and> c < length (clients s) then (clients s ! c)\<lparr>Ch := ch\<rparr> else clients s ! q)"
  by (cases "c < length (clients s)") (simp_all add: set_Ch_def nth_list_update list_update_beyond)

lemma set_LastSeen_nth:
  "clients (set_LastSeen s c t) ! q =
     (if q = c \<and> c < length (clients s) then (clients s ! c)\<lparr>LastSeen := t\<rparr> else clients s ! q)"
  by (cases "c < length (clients s)") (simp_all add: set_LastSeen_def nth_list_update list_update_beyond)

lemma set_RateLimiter_nth:
  "clients (set_RateLimiter s c l) ! q =
     (if q = c \<and> c < length (clients s) then (clients s ! c)\<lparr>RateLimiter := l\<rparr> else clients s ! q)"
  by (cases "c < length (clients s)") (simp_all add: set_RateLimiter_def nth_list_update list_update_beyond)

section \<open>The invariant\<close>

lemma invariant_New: "invariant NewChatService"
  by (simp add: invariant_def NewChatService_def)

lemma invariant_lookup:
  assumes "invariant s" "map_of (streams s) uid = Some p"
  shows "uid \<noteq> []" "p < length (clients s)" "ID (clients s ! p) = uid"
    "\<not> ch_closed (Ch (clients s ! p))" "client_ok (clients s ! p)"
proof -
  from assms(2) have m: "(uid, p) \<in> set (streams s)" by (rule map_of_SomeD)
  with assms(1) have r: "registered_ok s (uid, p)"
    by (simp add: invariant_def list_all_iff)
  then show "uid \<noteq> []" "p < length (clients s)" "ID (clients s ! p) = uid"
    "\<not> ch_closed (Ch (clients s ! p))" by (simp_all add: registered_ok_def)
  then show "client_ok (clients s ! p)" using assms(1)
    by (simp add: invariant_def list_all_iff)
qed

lemma invariant_pointers_differ:
  assumes "invariant s" "map_of (streams s) u = Some p" "map_of (streams s) v = Some q" "u \<noteq> v"
  shows "p \<noteq> q"
proof
  assume "p = q"
  have d: "distinct (map snd (streams s))" using assms(1) by (simp add: invariant_def)
  have "(u, p) \<in> set (streams s)" "(v, p) \<in> set (streams s)"
    using assms(2,3) \<open>p = q\<close> by (auto dest: map_of_SomeD)
  moreover from d have "inj_on snd (set (streams s))" by (simp add: distinct_map)
  ultimately have "(u, p) = (v, p)"
    using inj_onD [of snd "set (streams s)" "(u, p)" "(v, p)"] by simp
  with assms(4) show False by simp
qed

text \<open>Replacing a client by one with the same id, a sound mailbox and limiter.\<close>

lemma invariant_store:
  assumes inv: "invariant s"
    and ok: "client_ok c'"
    and ident: "ID c' = ID (clients s ! p)"
    and "open": "ch_closed (Ch c') \<Longrightarrow> p \<notin> snd ` set (streams s)"
  shows "invariant (s\<lparr>clients := (clients s)[p := c']\<rparr>)"
proof -
  let ?s = "s\<lparr>clients := (clients s)[p := c']\<rparr>"
  have reg: "registered_ok ?s e" if e: "e \<in> set (streams s)" for e
  proof -
    from inv e have r: "registered_ok s e" by (simp add: invariant_def list_all_iff)
    show ?thesis
    proof (cases "snd e = p")
      case True
      with e have "p \<in> snd ` set (streams s)" by force
      with "open" have "\<not> ch_closed (Ch c')" by blast
      with r True ident show ?thesis by (simp add: registered_ok_def)
    next
      case False
      with r show ?thesis by (simp add: registered_ok_def)
    qed
  qed
  have cl: "client_ok c" if "c \<in> set ((clients s)[p := c'])" for c
  proof -
    from that have "c = c' \<or> c \<in> set (clients s)"
      using set_update_subset_insert [of "clients s" p c'] by auto
    with ok inv show ?thesis by (auto simp: invariant_def list_all_iff)
  qed
  from inv reg cl show ?thesis by (simp add: invariant_def list_all_iff)
qed

lemma invariant_set_LastSeen:
  assumes "invariant s"
  shows "invariant (set_LastSeen s p t)"
proof (cases "p < length (clients s)")
  case True
  with assms have ok: "client_ok (clients s ! p)" by (simp add: invariant_def list_all_iff)
  have "invariant (s\<lparr>clients := (clients s)[p := (clients s ! p)\<lparr>LastSeen := t\<rparr>]\<rparr>)"
  proof (rule invariant_store [OF assms])
    show "client_ok ((clients s ! p)\<lparr>LastSeen := t\<rparr>)" using ok by (simp add: client_ok_def)
    show "ID ((clients s ! p)\<lparr>LastSeen := t\<rparr>) = ID (clients s ! p)" by simp
    show "p \<notin> snd ` set (streams s)" if "ch_closed (Ch ((clients s ! p)\<lparr>LastSeen := t\<rparr>))"
    proof
      assume "p \<in> snd ` set (streams s)"
      then obtain e where "e \<in> set (streams s)" "snd e = p" by auto
      with assms have "registered_ok s e" by (simp add: invariant_def list_all_iff)
      with \<open>snd e = p\<close> that show False by (simp add: registered_ok_def)
    qed
  qed
  then show ?thesis by (simp add: set_LastSeen_def)
next
  case False
  then have "set_LastSeen s p t = s" by (simp add: set_LastSeen_def list_update_beyond)
  with assms show ?thesis by simp
qed

section \<open>The limiter\<close>

lemma advance_le_burst: "advance lim now \<le> lim_burst lim * Second"
  by (simp add: advance_def Let_def)

lemma Allow_False [simp]: "\<not> fst (Allow lim now) \<Longrightarrow> snd (Allow lim now) = lim"
  by (cases "1 \<le> lim_burst lim \<and> Second \<le> advance lim now") (auto simp: Allow_def Let_def)

lemma Allow_True:
  "fst (Allow lim now) \<Longrightarrow>
     snd (Allow lim now) = lim\<lparr>lim_tokens := advance lim now - Second, lim_last := now\<rparr>"
  by (cases "1 \<le> lim_burst lim \<and> Second \<le> advance lim now") (auto simp: Allow_def Let_def)

lemma Allow_iff: "fst (Allow lim now) \<longleftrightarrow> 1 \<le> lim_burst lim \<and> Second \<le> advance lim now"
  by (simp add: Allow_def Let_def)

lemma Allow_rate_burst [simp]:
  "lim_rate (snd (Allow lim now)) = lim_rate lim"
  "lim_burst (snd (Allow lim now)) = lim_burst lim"
  by (simp_all add: Allow_def Let_def)

lemma Allow_tokens_bounds:
  assumes "0 \<le> lim_tokens lim" "lim_tokens lim \<le> lim_burst lim * Second"
  shows "0 \<le> lim_tokens (snd (Allow lim now))"
    and "lim_tokens (snd (Allow lim now)) \<le> lim_burst lim * Second"
proof -
  have "advance lim now - Second \<le> lim_burst lim * Second"
    using advance_le_burst [of lim now] by (simp add: Second_def)
  with assms show "0 \<le> lim_tokens (snd (Allow lim now))"
    and "lim_tokens (snd (Allow lim now)) \<le> lim_burst lim * Second"
    by (simp_all add: Allow_def Let_def)
qed

lemma client_ok_Allow:
  assumes "client_ok c"
  shows "client_ok (c\<lparr>RateLimiter := snd (Allow (RateLimiter c) now)\<rparr>)"
  using assms Allow_tokens_bounds [of "RateLimiter c" now]
  by (simp add: client_ok_def)

section \<open>The fan-out loop\<close>

lemma fan_out_eq:
  "fan_out frm m es (gs, n) =
     (gs @ map (\<lambda>e. (snd e, m)) (filter (\<lambda>e. fst e \<noteq> frm) es),
      n + length (filter (\<lambda>e. fst e \<noteq> frm) es))"
  by (induction es arbitrary: gs n) auto

text \<open>The recipients of a broadcast by \<open>frm\<close>: the pointers of all other registered clients.\<close>

lemma SendMessage_not_found:
  "frm \<noteq> [] \<Longrightarrow> msg \<noteq> [] \<Longrightarrow> length msg \<le> 500 \<Longrightarrow> map_of (streams s) frm = None \<Longrightarrow>
     SendMessage s frm msg now = (Inl ERR_SENDER_NOT_FOUND, s)"
  by (simp add: SendMessage_def)

lemma SendMessage_rate_limited:
  assumes "frm \<noteq> []" "msg \<noteq> []" "length msg \<le> 500" "map_of (streams s) frm = Some p"
    "\<not> fst (Allow (RateLimiter (clients s ! p)) now)"
  shows "SendMessage s frm msg now =
     (Inl ERR_RATE_LIMIT, set_RateLimiter s p (RateLimiter (clients s ! p)))"
  using assms by (simp add: SendMessage_def Let_def split_beta)

lemma SendMessage_allowed:
  assumes "frm \<noteq> []" "msg \<noteq> []" "length msg \<le> 500" "map_of (streams s) frm = Some p"
    "fst (Allow (RateLimiter (clients s ! p)) now)"
  shows "SendMessage s frm msg now =
     (if filter (\<lambda>e. fst e \<noteq> frm) (streams s) = [] then Inl ERR_NO_RECEIVERS
      else Inr (SendMessageResponse True ''Message broadcasted to clients''),
      (set_RateLimiter s p (snd (Allow (RateLimiter (clients s ! p)) now)))
        \<lparr>goroutines := goroutines s @
           map (\<lambda>e. (snd e, frm @ '': '' @ msg)) (filter (\<lambda>e. fst e \<noteq> frm) (streams s))\<rparr>)"
  using assms by (simp add: SendMessage_def Let_def split_beta fan_out_eq)

section \<open>Every operation keeps the invariant\<close>

lemma new_client_ok:
  "client_ok \<lparr>ID = uid, Ch = make_chan 10, LastSeen = now, RateLimiter = NewLimiter 1 5\<rparr>"
  by (simp add: client_ok_def make_chan_def NewLimiter_def Second_def)

lemma Join_error:
  "uid = [] \<or> map_of (streams s) uid \<noteq> None \<Longrightarrow> snd (Join s uid now) = s"
  by (auto simp: Join_def)

lemma Join_success:
  "uid \<noteq> [] \<Longrightarrow> map_of (streams s) uid = None \<Longrightarrow>
     Join s uid now =
       (Inr (JoinResponse True ''User joined successfully''),
        s\<lparr>streams := (uid, length (clients s)) # streams s,
          clients := clients s @
            [\<lparr>ID = uid, Ch = make_chan 10, LastSeen = now, RateLimiter = NewLimiter 1 5\<rparr>]\<rparr>)"
  by (simp add: Join_def)

lemma invariant_Join:
  assumes "invariant s"
  shows "invariant (snd (Join s uid now))"
proof (cases "uid = [] \<or> map_of (streams s) uid \<noteq> None")
  case True
  then show ?thesis using assms by (simp add: Join_error)
next
  case False
  then have u: "uid \<noteq> []" and n: "map_of (streams s) uid = None" by auto
  let ?c = "\<lparr>ID = uid, Ch = make_chan 10, LastSeen = now, RateLimiter = NewLimiter 1 5\<rparr>"
  let ?s = "s\<lparr>streams := (uid, length (clients s)) # streams s, clients := clients s @ [?c]\<rparr>"
  have eq: "snd (Join s uid now) = ?s" using u n by (simp add: Join_success)
  have fresh: "uid \<notin> fst ` set (streams s)" using n by (simp add: map_of_eq_None_iff)
  have bound: "\<forall>e \<in> set (streams s). snd e < length (clients s)"
    using assms by (auto simp: invariant_def list_all_iff registered_ok_def)
  then have pfresh: "length (clients s) \<notin> snd ` set (streams s)" by auto
  have old: "\<forall>e \<in> set (streams s). registered_ok ?s e"
    using assms by (auto simp: invariant_def list_all_iff registered_ok_def nth_append)
  have new: "registered_ok ?s (uid, length (clients s))"
    using u by (simp add: registered_ok_def make_chan_def)
  have g: "\<forall>g \<in> set (goroutines s). fst g < Suc (length (clients s))"
    using assms by (auto simp: invariant_def list_all_iff)
  show ?thesis unfolding eq using assms fresh pfresh old new g new_client_ok [of uid now]
    by (simp add: invariant_def list_all_iff)
qed

lemma invariant_closed_unregistered:
  assumes "invariant s" "p \<in> snd ` set (streams s)"
  shows "\<not> ch_closed (Ch (clients s ! p))" "p < length (clients s)"
proof -
  from assms(2) obtain e where e: "e \<in> set (streams s)" "snd e = p" by auto
  with assms(1) have "registered_ok s e" by (simp add: invariant_def list_all_iff)
  with e show "\<not> ch_closed (Ch (clients s ! p))" "p < length (clients s)"
    by (simp_all add: registered_ok_def)
qed

lemma invariant_set_RateLimiter:
  assumes "invariant s" "p < length (clients s)"
  shows "invariant (set_RateLimiter s p (snd (Allow (RateLimiter (clients s ! p)) now)))"
proof -
  let ?c = "(clients s ! p)\<lparr>RateLimiter := snd (Allow (RateLimiter (clients s ! p)) now)\<rparr>"
  from assms have ok: "client_ok (clients s ! p)" by (simp add: invariant_def list_all_iff)
  have "invariant (s\<lparr>clients := (clients s)[p := ?c]\<rparr>)"
  proof (rule invariant_store [OF assms(1)])
    show "client_ok ?c" using ok by (rule client_ok_Allow)
    show "ID ?c = ID (clients s ! p)" by simp
    show "p \<notin> snd ` set (streams s)" if "ch_closed (Ch ?c)"
      using that invariant_closed_unregistered(1) [OF assms(1), of p] by auto
  qed
  then show ?thesis by (simp add: set_RateLimiter_def)
qed

lemma invariant_goroutines:
  assumes "invariant s" "\<forall>g \<in> set gs. fst g < length (clients s)"
  shows "invariant (s\<lparr>goroutines := gs\<rparr>)"
  using assms by (simp add: invariant_def list_all_iff registered_ok_def)

lemma invariant_SendMessage:
  assumes "invariant s"
  shows "invariant (snd (SendMessage s frm msg now))"
proof (cases "frm = [] \<or> msg = [] \<or> 500 < length msg")
  case True
  then show ?thesis using assms by (auto simp: SendMessage_def)
next
  case False
  then have v: "frm \<noteq> []" "msg \<noteq> []" "length msg \<le> 500" by auto
  show ?thesis
  proof (cases "map_of (streams s) frm")
    case None
    then show ?thesis using assms v by (simp add: SendMessage_not_found)
  next
    case (Some p)
    have p: "p < length (clients s)" using assms Some by (rule invariant_lookup)
    let ?lim = "snd (Allow (RateLimiter (clients s ! p)) now)"
    have 1: "invariant (set_RateLimiter s p ?lim)" using assms p by (rule invariant_set_RateLimiter)
    show ?thesis
    proof (cases "fst (Allow (RateLimiter (clients s ! p)) now)")
      case False
      then have "?lim = RateLimiter (clients s ! p)" by simp
      with 1 False show ?thesis using v Some by (simp add: SendMessage_rate_limited)
    next
      case True
      let ?gs = "goroutines s @
           map (\<lambda>e. (snd e, frm @ '': '' @ msg)) (filter (\<lambda>e. fst e \<noteq> frm) (streams s))"
      have "\<forall>g \<in> set ?gs. fst g < length (clients (set_RateLimiter s p ?lim))"
        using assms by (auto simp: invariant_def list_all_iff registered_ok_def)
      with 1 have "invariant ((set_RateLimiter s p ?lim)\<lparr>goroutines := ?gs\<rparr>)"
        by (rule invariant_goroutines)
      then show ?thesis using v Some True by (simp add: SendMessage_allowed)
    qed
  qed
qed

lemma run_goroutine_open:
  assumes "\<not> ch_closed (Ch (clients s ! p))"
  shows "run_goroutine s (p, m) =
     Inr (set_Ch s p
        (if length (ch_buf (Ch (clients s ! p))) < ch_cap (Ch (clients s ! p))
         then (Ch (clients s ! p))\<lparr>ch_buf := ch_buf (Ch (clients s ! p)) @ [m]\<rparr>
         else Ch (clients s ! p)))"
  using assms by (simp add: run_goroutine_def select_send_def)

lemma run_goroutine_closed:
  "ch_closed (Ch (clients s ! p)) \<Longrightarrow> run_goroutine s (p, m) = Inl SendOnClosedChannel"
  by (simp add: run_goroutine_def select_send_def)

lemma invariant_run_goroutine:
  assumes "invariant s" "run_goroutine s g = Inr s'"
  shows "invariant s'"
proof -
  obtain p m where g: "g = (p, m)" by (cases g)
  let ?old = "Ch (clients s ! p)"
  let ?ch = "if length (ch_buf ?old) < ch_cap ?old then ?old\<lparr>ch_buf := ch_buf ?old @ [m]\<rparr> else ?old"
  have op: "\<not> ch_closed ?old"
    using assms(2) g run_goroutine_closed [of s p m] by auto
  then have s': "s' = set_Ch s p ?ch" using assms(2) g by (simp add: run_goroutine_open)
  show ?thesis
  proof (cases "p < length (clients s)")
    case False
    then have "set_Ch s p ?ch = s" by (simp add: set_Ch_def list_update_beyond)
    with s' assms(1) show ?thesis by simp
  next
    case True
    with assms(1) have ok: "client_ok (clients s ! p)" by (simp add: invariant_def list_all_iff)
    have "invariant (s\<lparr>clients := (clients s)[p := (clients s ! p)\<lparr>Ch := ?ch\<rparr>]\<rparr>)"
    proof (rule invariant_store [OF assms(1)])
      show "client_ok ((clients s ! p)\<lparr>Ch := ?ch\<rparr>)" using ok by (simp add: client_ok_def)
      show "ID ((clients s ! p)\<lparr>Ch := ?ch\<rparr>) = ID (clients s ! p)" by simp
      show "p \<notin> snd ` set (streams s)" if "ch_closed (Ch ((clients s ! p)\<lparr>Ch := ?ch\<rparr>))"
        using that op by (simp split: if_splits)
    qed
    with s' show ?thesis by (simp add: set_Ch_def)
  qed
qed

lemma invariant_deliver:
  assumes "invariant s" "deliver s k = Inr s'"
  shows "invariant s'"
proof (cases "k < length (goroutines s)")
  case False
  with assms show ?thesis by (simp add: deliver_def)
next
  case True
  let ?gs = "take k (goroutines s) @ drop (Suc k) (goroutines s)"
  have "set ?gs \<subseteq> set (goroutines s)"
    using set_take_subset [of k "goroutines s"] set_drop_subset [of "Suc k" "goroutines s"]
    by auto
  then have "\<forall>g \<in> set ?gs. fst g < length (clients s)"
    using assms(1) by (auto simp: invariant_def list_all_iff)
  with assms(1) have "invariant (s\<lparr>goroutines := ?gs\<rparr>)" by (rule invariant_goroutines)
  moreover have "run_goroutine (s\<lparr>goroutines := ?gs\<rparr>) (goroutines s ! k) = Inr s'"
    using assms(2) True by (simp add: deliver_def)
  ultimately show ?thesis by (rule invariant_run_goroutine)
qed

section \<open>Removing a client\<close>

text \<open>
  \<^verbatim>\<open>Leave\<close> and the cleanup loop remove a client in the same way: the registry entry
  is deleted and the mailbox closed.
\<close>

lemma set_delete: "set (AList.delete k al) = {e \<in> set al. fst e \<noteq> k}"
  by (auto simp: AList.delete_eq)

lemma invariant_delete:
  assumes "invariant s"
  shows "invariant (s\<lparr>streams := AList.delete uid (streams s)\<rparr>)"
proof -
  have "distinct (map snd (AList.delete uid (streams s)))"
    using assms by (simp add: invariant_def AList.delete_eq distinct_map_filter)
  moreover have "distinct (map fst (AList.delete uid (streams s)))"
    using assms by (simp add: invariant_def AList.distinct_delete)
  ultimately show ?thesis
    using assms by (simp add: invariant_def list_all_iff registered_ok_def set_delete)
qed

lemma pointer_deleted:
  assumes "invariant s" "map_of (streams s) uid = Some p"
  shows "p \<notin> snd ` set (AList.delete uid (streams s))"
proof
  assume "p \<in> snd ` set (AList.delete uid (streams s))"
  then obtain v where v: "(v, p) \<in> set (streams s)" "v \<noteq> uid"
    by (auto simp: set_delete)
  have d: "distinct (map fst (streams s))" using assms(1) by (simp add: invariant_def)
  from v(1) d have "map_of (streams s) v = Some p" by simp
  with assms v(2) invariant_pointers_differ [of s v p uid p] show False by simp
qed

lemma invariant_evict:
  assumes "invariant s" "map_of (streams s) uid = Some p"
  shows "invariant (set_Ch (s\<lparr>streams := AList.delete uid (streams s)\<rparr>) p
           ((Ch (clients s ! p))\<lparr>ch_closed := True\<rparr>))"
proof -
  let ?s1 = "s\<lparr>streams := AList.delete uid (streams s)\<rparr>"
  let ?c = "(clients s ! p)\<lparr>Ch := (Ch (clients s ! p))\<lparr>ch_closed := True\<rparr>\<rparr>"
  have 1: "invariant ?s1" using assms(1) by (rule invariant_delete)
  have ok: "client_ok (clients s ! p)" using assms by (rule invariant_lookup)
  have "invariant (?s1\<lparr>clients := (clients ?s1)[p := ?c]\<rparr>)"
  proof (rule invariant_store [OF 1])
    show "client_ok ?c" using ok by (simp add: client_ok_def)
    show "ID ?c = ID (clients ?s1 ! p)" by simp
    show "p \<notin> snd ` set (streams ?s1)" using pointer_deleted [OF assms] by simp
  qed
  then show ?thesis by (simp add: set_Ch_def)
qed

lemma set_Ch_streams_update:
  "(set_Ch s p ch)\<lparr>streams := al\<rparr> = set_Ch (s\<lparr>streams := al\<rparr>) p ch"
  by (cases s) (simp add: set_Ch_def)

lemma Leave_error:
  "uid = [] \<Longrightarrow> Leave s uid = Inr (Inl ERR_MISSING_USER_ID, s)"
  "uid \<noteq> [] \<Longrightarrow> map_of (streams s) uid = None \<Longrightarrow> Leave s uid = Inr (Inl ERR_USER_NOT_FOUND, s)"
  by (simp_all add: Leave_def)

lemma Leave_success:
  assumes "invariant s" "map_of (streams s) uid = Some p"
  shows "Leave s uid =
     Inr (Inr (LeaveResponse True ''User disconnected successfully''),
          set_Ch (s\<lparr>streams := AList.delete uid (streams s)\<rparr>) p
            ((Ch (clients s ! p))\<lparr>ch_closed := True\<rparr>))"
proof -
  have "uid \<noteq> []" "\<not> ch_closed (Ch (clients s ! p))"
    using assms by (rule invariant_lookup)+
  with assms(2) show ?thesis by (simp add: Leave_def close_chan_def Let_def)
qed

lemma Leave_total:
  assumes "invariant s"
  shows "\<exists>r s'. Leave s uid = Inr (r, s') \<and> invariant s'"
proof (cases "uid = []")
  case True
  with assms show ?thesis by (simp add: Leave_error)
next
  case False
  show ?thesis
  proof (cases "map_of (streams s) uid")
    case None
    with False assms show ?thesis by (simp add: Leave_error)
  next
    case (Some p)
    with assms show ?thesis by (simp add: Leave_success invariant_evict)
  qed
qed

section \<open>The cleanup loop\<close>

lemma sweep_props:
  assumes "invariant s" "set es \<subseteq> set (streams s)" "distinct (map fst es)"
  shows "\<exists>s'. sweep es now s = Inr s' \<and> invariant s' \<and>
     goroutines s' = goroutines s \<and> length (clients s') = length (clients s) \<and>
     (\<forall>u. map_of (streams s') u =
        (if \<exists>q. (u, q) \<in> set es \<and> 5 * Minute < now - LastSeen (clients s ! q) then None
         else map_of (streams s) u)) \<and>
     (\<forall>q. clients s' ! q =
        (if \<exists>u. (u, q) \<in> set es \<and> 5 * Minute < now - LastSeen (clients s ! q)
         then (clients s ! q)\<lparr>Ch := (Ch (clients s ! q))\<lparr>ch_closed := True\<rparr>\<rparr>
         else clients s ! q))"
  using assms
proof (induction es arbitrary: s)
  case Nil
  then show ?case by simp
next
  case (Cons e es)
  obtain uid p where e: "e = (uid, p)" by (cases e)
  have mem: "(uid, p) \<in> set (streams s)" using Cons.prems(2) e by simp
  have d: "distinct (map fst (streams s))" using Cons.prems(1) by (simp add: invariant_def)
  have look: "map_of (streams s) uid = Some p" using mem d by simp
  have p: "p < length (clients s)" using Cons.prems(1) look by (rule invariant_lookup)
  have op: "\<not> ch_closed (Ch (clients s ! p))" using Cons.prems(1) look by (rule invariant_lookup)
  have rest_keys: "uid \<notin> fst ` set es" using Cons.prems(3) e by simp
  show ?case
  proof (cases "5 * Minute < now - LastSeen (clients s ! p)")
    case False
    have sub: "set es \<subseteq> set (streams s)" using Cons.prems(2) by simp
    have dis: "distinct (map fst es)" using Cons.prems(3) by simp
    from Cons.IH [OF Cons.prems(1) sub dis] obtain s' where s':
      "sweep es now s = Inr s'" "invariant s'" "goroutines s' = goroutines s"
      "length (clients s') = length (clients s)"
      "\<forall>u. map_of (streams s') u =
        (if \<exists>q. (u, q) \<in> set es \<and> 5 * Minute < now - LastSeen (clients s ! q) then None
         else map_of (streams s) u)"
      "\<forall>q. clients s' ! q =
        (if \<exists>u. (u, q) \<in> set es \<and> 5 * Minute < now - LastSeen (clients s ! q)
         then (clients s ! q)\<lparr>Ch := (Ch (clients s ! q))\<lparr>ch_closed := True\<rparr>\<rparr>
         else clients s ! q)"
      by blast
    have 1: "sweep (e # es) now s = Inr s'" using False s'(1) e by simp
    have 2: "(\<exists>q. (u, q) \<in> set (e # es) \<and> 5 * Minute < now - LastSeen (clients s ! q)) \<longleftrightarrow>
             (\<exists>q. (u, q) \<in> set es \<and> 5 * Minute < now - LastSeen (clients s ! q))" for u
      using False e by auto
    have 3: "(\<exists>u. (u, q) \<in> set (e # es) \<and> 5 * Minute < now - LastSeen (clients s ! q)) \<longleftrightarrow>
             (\<exists>u. (u, q) \<in> set es \<and> 5 * Minute < now - LastSeen (clients s ! q))" for q
      using False e by auto
    show ?thesis using 1 s'(2-6) by (simp only: 2 3) simp
  next
    case True
    let ?ch = "(Ch (clients s ! p))\<lparr>ch_closed := True\<rparr>"
    let ?s1 = "set_Ch (s\<lparr>streams := AList.delete uid (streams s)\<rparr>) p ?ch"
    have step: "sweep (e # es) now s = sweep es now ?s1"
      using True op e by (simp add: close_chan_def set_Ch_streams_update)
    have inv1: "invariant ?s1" using Cons.prems(1) look by (rule invariant_evict)
    have sub: "set es \<subseteq> set (streams ?s1)"
      using Cons.prems(2) rest_keys by (auto simp: set_delete)
    have dis: "distinct (map fst es)" using Cons.prems(3) by simp
    have seen: "LastSeen (clients ?s1 ! q) = LastSeen (clients s ! q)" for q
      by (simp add: set_Ch_nth)
    from Cons.IH [OF inv1 sub dis] obtain s' where s':
      "sweep es now ?s1 = Inr s'" "invariant s'" "goroutines s' = goroutines ?s1"
      "length (clients s') = length (clients ?s1)"
      "\<forall>u. map_of (streams s') u =
        (if \<exists>q. (u, q) \<in> set es \<and> 5 * Minute < now - LastSeen (clients ?s1 ! q) then None
         else map_of (streams ?s1) u)"
      "\<forall>q. clients s' ! q =
        (if \<exists>u. (u, q) \<in> set es \<and> 5 * Minute < now - LastSeen (clients ?s1 ! q)
         then (clients ?s1 ! q)\<lparr>Ch := (Ch (clients ?s1 ! q))\<lparr>ch_closed := True\<rparr>\<rparr>
         else clients ?s1 ! q)"
      by blast
    have m: "map_of (streams s') u =
        (if \<exists>q. (u, q) \<in> set (e # es) \<and> 5 * Minute < now - LastSeen (clients s ! q) then None
         else map_of (streams s) u)" for u
    proof (cases "u = uid")
      case True
      with \<open>5 * Minute < now - LastSeen (clients s ! p)\<close> e s'(5) show ?thesis
        by (auto simp: seen AList.delete_conv')
    next
      case False
      with e s'(5) show ?thesis by (auto simp: seen AList.delete_conv')
    qed
    have c: "clients s' ! q =
        (if \<exists>u. (u, q) \<in> set (e # es) \<and> 5 * Minute < now - LastSeen (clients s ! q)
         then (clients s ! q)\<lparr>Ch := (Ch (clients s ! q))\<lparr>ch_closed := True\<rparr>\<rparr>
         else clients s ! q)" for q
    proof (cases "q = p")
      case True
      with \<open>5 * Minute < now - LastSeen (clients s ! p)\<close> e p s'(6) show ?thesis
        by (auto simp: seen set_Ch_nth)
    next
      case False
      with e s'(6) show ?thesis by (auto simp: seen set_Ch_nth)
    qed
    from step s'(1-4) m c show ?thesis by simp
  qed
qed

lemma cleanup_props:
  assumes "invariant s"
  shows "\<exists>s'. cleanup s now = Inr s' \<and> invariant s' \<and>
     goroutines s' = goroutines s \<and> length (clients s') = length (clients s) \<and>
     (\<forall>u. map_of (streams s') u =
        (case map_of (streams s) u of
           None \<Rightarrow> None
         | Some q \<Rightarrow> if 5 * Minute < now - LastSeen (clients s ! q) then None else Some q)) \<and>
     (\<forall>q. clients s' ! q =
        (if q \<in> snd ` set (streams s) \<and> 5 * Minute < now - LastSeen (clients s ! q)
         then (clients s ! q)\<lparr>Ch := (Ch (clients s ! q))\<lparr>ch_closed := True\<rparr>\<rparr>
         else clients s ! q))"
proof -
  have d: "distinct (map fst (streams s))" using assms by (simp add: invariant_def)
  from sweep_props [OF assms subset_refl d, of now] obtain s' where s':
      "sweep (streams s) now s = Inr s'" "invariant s'" "goroutines s' = goroutines s"
      "length (clients s') = length (clients s)"
      "\<forall>u. map_of (streams s') u =
        (if \<exists>q. (u, q) \<in> set (streams s) \<and> 5 * Minute < now - LastSeen (clients s ! q) then None
         else map_of (streams s) u)"
      "\<forall>q. clients s' ! q =
        (if \<exists>u. (u, q) \<in> set (streams s) \<and> 5 * Minute < now - LastSeen (clients s ! q)
         then (clients s ! q)\<lparr>Ch := (Ch (clients s ! q))\<lparr>ch_closed := True\<rparr>\<rparr>
         else clients s ! q)"
    by blast
  have m: "map_of (streams s') u =
        (case map_of (streams s) u of
           None \<Rightarrow> None
         | Some q \<Rightarrow> if 5 * Minute < now - LastSeen (clients s ! q) then None else Some q)" for u
  proof (cases "map_of (streams s) u")
    case None
    then show ?thesis using s'(5) by simp
  next
    case (Some q)
    have "(u, q') \<in> set (streams s) \<longleftrightarrow> q' = q" for q'
    proof
      assume "(u, q') \<in> set (streams s)"
      with d have "map_of (streams s) u = Some q'" by simp
      with Some show "q' = q" by simp
    next
      assume "q' = q"
      with Some show "(u, q') \<in> set (streams s)" by (simp add: map_of_SomeD)
    qed
    then show ?thesis using Some s'(5) by simp
  qed
  have c: "clients s' ! q =
        (if q \<in> snd ` set (streams s) \<and> 5 * Minute < now - LastSeen (clients s ! q)
         then (clients s ! q)\<lparr>Ch := (Ch (clients s ! q))\<lparr>ch_closed := True\<rparr>\<rparr>
         else clients s ! q)" for q
  proof -
    have "(\<exists>u. (u, q) \<in> set (streams s)) \<longleftrightarrow> q \<in> snd ` set (streams s)" by force
    then show ?thesis using s'(6) by auto
  qed
  from s'(1-4) m c show ?thesis by (simp add: cleanup_def)
qed

lemma cleanup_keeps:
  assumes "invariant s" "map_of (streams s) uid = Some p"
    "now - LastSeen (clients s ! p) \<le> 5 * Minute"
  shows "\<exists>s'. cleanup s now = Inr s' \<and> map_of (streams s') uid = Some p \<and>
     clients s' ! p = clients s ! p"
proof -
  from cleanup_props [OF assms(1), of now] obtain s' where s':
    "cleanup s now = Inr s' \<and> invariant s' \<and>
     goroutines s' = goroutines s \<and> length (clients s') = length (clients s) \<and>
     (\<forall>u. map_of (streams s') u =
        (case map_of (streams s) u of
           None \<Rightarrow> None
         | Some q \<Rightarrow> if 5 * Minute < now - LastSeen (clients s ! q) then None else Some q)) \<and>
     (\<forall>q. clients s' ! q =
        (if q \<in> snd ` set (streams s) \<and> 5 * Minute < now - LastSeen (clients s ! q)
         then (clients s ! q)\<lparr>Ch := (Ch (clients s ! q))\<lparr>ch_closed := True\<rparr>\<rparr>
         else clients s ! q))" ..
  from s' assms(2,3) have "map_of (streams s') uid = Some p" "clients s' ! p = clients s ! p"
    by simp_all
  with s' show ?thesis by simp
qed

lemma cleanup_evicts:
  assumes "invariant s" "map_of (streams s) uid = Some p"
    "5 * Minute < now - LastSeen (clients s ! p)"
  shows "\<exists>s'. cleanup s now = Inr s' \<and> invariant s' \<and> map_of (streams s') uid = None \<and>
     clients s' ! p = (clients s ! p)\<lparr>Ch := (Ch (clients s ! p))\<lparr>ch_closed := True\<rparr>\<rparr>"
proof -
  from cleanup_props [OF assms(1), of now] obtain s' where s':
    "cleanup s now = Inr s' \<and> invariant s' \<and>
     goroutines s' = goroutines s \<and> length (clients s') = length (clients s) \<and>
     (\<forall>u. map_of (streams s') u =
        (case map_of (streams s) u of
           None \<Rightarrow> None
         | Some q \<Rightarrow> if 5 * Minute < now - LastSeen (clients s ! q) then None else Some q)) \<and>
     (\<forall>q. clients s' ! q =
        (if q \<in> snd ` set (streams s) \<and> 5 * Minute < now - LastSeen (clients s ! q)
         then (clients s ! q)\<lparr>Ch := (Ch (clients s ! q))\<lparr>ch_closed := True\<rparr>\<rparr>
         else clients s ! q))" ..
  have "(uid, p) \<in> set (streams s)" using assms(2) by (rule map_of_SomeD)
  then have "p \<in> snd ` set (streams s)" by force
  with s' assms(2,3) have "map_of (streams s') uid = None"
    "clients s' ! p = (clients s ! p)\<lparr>Ch := (Ch (clients s ! p))\<lparr>ch_closed := True\<rparr>\<rparr>"
    by simp_all
  with s' show ?thesis by simp
qed

section \<open>Waiting for a message\<close>

declare await.simps [simp del]

lemma await_message:
  "ch_buf (Ch (clients s ! c)) = m # ms \<Longrightarrow>
     await s c d env =
       Inr (Inr (MessageResponse m), set_Ch s c ((Ch (clients s ! c))\<lparr>ch_buf := ms\<rparr>))"
  by (simp add: await.simps [of s c d env] chan_recv_def)

lemma set_Ch_same: "set_Ch s c (Ch (clients s ! c)) = s"
  by (simp add: set_Ch_def)

lemma await_closed:
  "ch_buf (Ch (clients s ! c)) = [] \<Longrightarrow> ch_closed (Ch (clients s ! c)) \<Longrightarrow>
     await s c d env = Inr (Inl ERR_USER_DISCONNECTED, s)"
  by (simp add: await.simps [of s c d env] chan_recv_def set_Ch_same)

lemma await_idle_Nil:
  "idle s c \<Longrightarrow> await s c d [] = Inr (Inl ERR_NO_MESSAGES, s)"
  by (simp add: await.simps [of s c d "[]"] chan_recv_def idle_def)

lemma await_idle_deadline:
  "idle s c \<Longrightarrow> d \<le> t \<Longrightarrow> await s c d ((t, a) # rest) = Inr (Inl ERR_NO_MESSAGES, s)"
  by (simp add: await.simps [of s c d "(t, a) # rest"] chan_recv_def idle_def)

lemma await_idle_step:
  "idle s c \<Longrightarrow> t < d \<Longrightarrow>
     await s c d ((t, a) # rest) =
       (case step s t a of Inl p \<Rightarrow> Inl p | Inr s' \<Rightarrow> await s' c d rest)"
  by (simp add: await.simps [of s c d "(t, a) # rest"] chan_recv_def idle_def)

lemma not_idle_cases:
  "\<not> idle s c \<Longrightarrow>
     (\<exists>m ms. ch_buf (Ch (clients s ! c)) = m # ms) \<or>
     (ch_buf (Ch (clients s ! c)) = [] \<and> ch_closed (Ch (clients s ! c)))"
  by (cases "ch_buf (Ch (clients s ! c))") (simp_all add: idle_def)

lemma await_outcome:
  "await s c d env = Inr (r, s') \<Longrightarrow>
     r = Inl ERR_USER_DISCONNECTED \<or> r = Inl ERR_NO_MESSAGES \<or> (\<exists>m. r = Inr (MessageResponse m))"
proof (induction env arbitrary: s)
  case Nil
  show ?case
  proof (cases "idle s c")
    case True
    with Nil show ?thesis by (simp add: await_idle_Nil)
  next
    case False
    from not_idle_cases [OF this] Nil show ?thesis
      by (auto simp: await_message await_closed)
  qed
next
  case (Cons e env)
  obtain t a where e: "e = (t, a)" by (cases e)
  show ?case
  proof (cases "idle s c")
    case False
    from not_idle_cases [OF this] Cons.prems show ?thesis
      by (auto simp: await_message await_closed)
  next
    case True
    show ?thesis
    proof (cases "t < d")
      case False
      with True Cons.prems e show ?thesis by (simp add: await_idle_deadline)
    next
      case t: True
      show ?thesis
      proof (cases "step s t a")
        case (Inl p)
        with True t Cons.prems e show ?thesis by (simp add: await_idle_step)
      next
        case (Inr s1)
        with True t Cons.prems e have "await s1 c d env = Inr (r, s')"
          by (simp add: await_idle_step)
        then show ?thesis by (rule Cons.IH)
      qed
    qed
  qed
qed

text \<open>While the mailbox stays idle, the wait goes on.\<close>

lemma await_idle_during:
  assumes "idle_during s c pre" "list_all (\<lambda>e. fst e < d) pre"
  shows "\<exists>s1. steps s pre = Inr s1 \<and> idle s1 c \<and> await s c d (pre @ env) = await s1 c d env"
  using assms
proof (induction pre arbitrary: s)
  case Nil
  then show ?case by simp
next
  case (Cons e pre)
  obtain t a where e: "e = (t, a)" by (cases e)
  from Cons.prems e obtain s' where s': "idle s c" "step s t a = Inr s'" "idle_during s' c pre"
    by (auto split: sum.splits)
  from Cons.prems e have t: "t < d" and rest: "list_all (\<lambda>e. fst e < d) pre" by simp_all
  from Cons.IH [OF s'(3) rest] obtain s1 where
    "steps s' pre = Inr s1" "idle s1 c" "await s' c d (pre @ env) = await s1 c d env" by blast
  with s' t e show ?case by (simp add: await_idle_step)
qed

section \<open>Keeping the invariant, continued\<close>

lemma invariant_pop:
  assumes "invariant s" "ch_buf (Ch (clients s ! c)) = m # ms"
  shows "invariant (set_Ch s c ((Ch (clients s ! c))\<lparr>ch_buf := ms\<rparr>))"
proof (cases "c < length (clients s)")
  case False
  then have "set_Ch s c ((Ch (clients s ! c))\<lparr>ch_buf := ms\<rparr>) = s"
    by (simp add: set_Ch_def list_update_beyond)
  with assms(1) show ?thesis by simp
next
  case True
  let ?c = "(clients s ! c)\<lparr>Ch := (Ch (clients s ! c))\<lparr>ch_buf := ms\<rparr>\<rparr>"
  from True assms(1) have ok: "client_ok (clients s ! c)" by (simp add: invariant_def list_all_iff)
  have "invariant (s\<lparr>clients := (clients s)[c := ?c]\<rparr>)"
  proof (rule invariant_store [OF assms(1)])
    show "client_ok ?c" using ok assms(2) by (simp add: client_ok_def)
    show "ID ?c = ID (clients s ! c)" by simp
    show "c \<notin> snd ` set (streams s)" if "ch_closed (Ch ?c)"
      using that invariant_closed_unregistered(1) [OF assms(1), of c] by auto
  qed
  then show ?thesis by (simp add: set_Ch_def)
qed

lemma invariant_step:
  assumes "invariant s" "step s t a = Inr s'"
  shows "invariant s'"
proof (cases a)
  case (DoJoin uid)
  with assms show ?thesis using invariant_Join [of s uid t] by auto
next
  case (DoSendMessage frm msg)
  with assms show ?thesis using invariant_SendMessage [of s frm msg t] by auto
next
  case (DoLeave uid)
  with assms show ?thesis using Leave_total [of s uid] by auto
next
  case (RunGoroutine k)
  with assms show ?thesis using invariant_deliver [of s k s'] by auto
next
  case CleanupTick
  with assms show ?thesis using cleanup_props [of s t] by auto
qed

lemma invariant_steps:
  "invariant s \<Longrightarrow> steps s env = Inr s' \<Longrightarrow> invariant s'"
proof (induction env arbitrary: s)
  case Nil
  then show ?case by simp
next
  case (Cons e env)
  obtain t a where e: "e = (t, a)" by (cases e)
  from Cons.prems e obtain s1 where s1: "step s t a = Inr s1" "steps s1 env = Inr s'"
    by (auto split: sum.splits)
  from Cons.prems(1) s1(1) have "invariant s1" by (rule invariant_step)
  from Cons.IH [OF this s1(2)] show ?case .
qed

lemma invariant_await:
  "invariant s \<Longrightarrow> await s c d env = Inr (r, s') \<Longrightarrow> invariant s'"
proof (induction env arbitrary: s)
  case Nil
  show ?case
  proof (cases "idle s c")
    case True
    with Nil show ?thesis by (simp add: await_idle_Nil)
  next
    case False
    from not_idle_cases [OF this] Nil show ?thesis
      by (auto simp: await_message await_closed invariant_pop)
  qed
next
  case (Cons e env)
  obtain t a where e: "e = (t, a)" by (cases e)
  show ?case
  proof (cases "idle s c")
    case False
    from not_idle_cases [OF this] Cons.prems show ?thesis
      by (auto simp: await_message await_closed invariant_pop)
  next
    case True
    show ?thesis
    proof (cases "t < d")
      case False
      with True Cons.prems e show ?thesis by (simp add: await_idle_deadline)
    next
      case t: True
      show ?thesis
      proof (cases "step s t a")
        case (Inl p)
        with True t Cons.prems e show ?thesis by (simp add: await_idle_step)
      next
        case (Inr s1)
        with True t Cons.prems e have 1: "await s1 c d env = Inr (r, s')"
          by (simp add: await_idle_step)
        from Cons.prems(1) Inr have "invariant s1" by (rule invariant_step)
        from Cons.IH [OF this 1] show ?thesis .
      qed
    qed
  qed
qed

lemma GetMessage_error:
  "uid = [] \<Longrightarrow> GetMessage s uid gap now env = Inr (Inl ERR_MISSING_USER_ID, s)"
  "uid \<noteq> [] \<Longrightarrow> map_of (streams s) uid = None \<Longrightarrow>
     GetMessage s uid gap now env = Inr (Inl ERR_USER_NOT_FOUND, s)"
  by (simp_all add: GetMessage_def)

text \<open>
  For a registered id the call runs what happens in its unlocked window, writes
  \<^verbatim>\<open>LastSeen\<close> through the pointer it looked up, and waits.
\<close>

lemma GetMessage_window:
  assumes "invariant s" "map_of (streams s) uid = Some p"
  shows "steps s gap = Inr s0 \<Longrightarrow>
           GetMessage s uid gap now env =
             await (set_LastSeen s0 p now) p (now + 10 * Second) env"
    and "steps s gap = Inl x \<Longrightarrow> GetMessage s uid gap now env = Inl x"
proof -
  have "uid \<noteq> []" using assms by (rule invariant_lookup)
  with assms(2) show
    "steps s gap = Inr s0 \<Longrightarrow>
       GetMessage s uid gap now env = await (set_LastSeen s0 p now) p (now + 10 * Second) env"
    "steps s gap = Inl x \<Longrightarrow> GetMessage s uid gap now env = Inl x"
    by (simp_all add: GetMessage_def)
qed

lemma GetMessage_registered:
  assumes "invariant s" "map_of (streams s) uid = Some p"
  shows "GetMessage s uid [] now env = await (set_LastSeen s p now) p (now + 10 * Second) env"
  using GetMessage_window(1) [OF assms, of "[]" s] by simp

lemma GetMessage_returns:
  assumes "invariant s" "map_of (streams s) uid = Some p"
    "GetMessage s uid gap now env = Inr (r, s')"
  obtains s0 where "steps s gap = Inr s0" "invariant s0"
    "await (set_LastSeen s0 p now) p (now + 10 * Second) env = Inr (r, s')"
proof (cases "steps s gap")
  case (Inl x)
  with GetMessage_window(2) [OF assms(1,2) Inl] assms(3) show ?thesis by simp
next
  case (Inr s0)
  from assms(1) Inr have "invariant s0" by (rule invariant_steps)
  moreover from GetMessage_window(1) [OF assms(1,2) Inr] assms(3)
  have "await (set_LastSeen s0 p now) p (now + 10 * Second) env = Inr (r, s')" by simp
  ultimately show ?thesis using Inr that by blast
qed

lemma invariant_GetMessage:
  assumes "invariant s" "GetMessage s uid gap now env = Inr (r, s')"
  shows "invariant s'"
proof (cases "uid = [] \<or> map_of (streams s) uid = None")
  case True
  with assms show ?thesis by (cases "uid = []") (auto simp: GetMessage_error)
next
  case False
  then obtain p where p: "map_of (streams s) uid = Some p" by auto
  from assms(1) p assms(2) obtain s0 where s0: "invariant s0"
    "await (set_LastSeen s0 p now) p (now + 10 * Second) env = Inr (r, s')"
    by (rule GetMessage_returns)
  have "invariant (set_LastSeen s0 p now)" using s0(1) by (rule invariant_set_LastSeen)
  then show ?thesis using s0(2) by (rule invariant_await)
qed

lemma invariant_serve:
  assumes "invariant s" "serve s t r = Inr s'"
  shows "invariant s'"
proof (cases r)
  case (Act a)
  with assms show ?thesis using invariant_step [of s t a s'] by simp
next
  case (Poll uid gap now env)
  with assms obtain x where "GetMessage s uid gap now env = Inr (x, s')"
    by (auto split: sum.splits)
  with assms(1) show ?thesis by (rule invariant_GetMessage)
qed

lemma invariant_run:
  "invariant s \<Longrightarrow> run s tr = Inr s' \<Longrightarrow> invariant s'"
proof (induction tr arbitrary: s)
  case Nil
  then show ?case by simp
next
  case (Cons e tr)
  obtain t r where e: "e = (t, r)" by (cases e)
  from Cons.prems e obtain s1 where s1: "serve s t r = Inr s1" "run s1 tr = Inr s'"
    by (auto split: sum.splits)
  from Cons.prems(1) s1(1) have "invariant s1" by (rule invariant_serve)
  from Cons.IH [OF this s1(2)] show ?case .
qed

text \<open>Every state the service reaches from its start is well-formed.\<close>

lemma invariant_reachable: "run NewChatService tr = Inr s \<Longrightarrow> invariant s"
  using invariant_New by (rule invariant_run)

section \<open>What the actions leave alone\<close>

lemma SendMessage_frame:
  "streams (snd (SendMessage s frm msg now)) = streams s"
  "length (clients (snd (SendMessage s frm msg now))) = length (clients s)"
  "LastSeen (clients (snd (SendMessage s frm msg now)) ! q) = LastSeen (clients s ! q)"
  "Ch (clients (snd (SendMessage s frm msg now)) ! q) = Ch (clients s ! q)"
  "ID (clients (snd (SendMessage s frm msg now)) ! q) = ID (clients s ! q)"
  by (simp_all add: SendMessage_def Let_def split_beta set_RateLimiter_nth split: option.splits)

lemma Join_frame:
  assumes "q < length (clients s)"
  shows "clients (snd (Join s uid now)) ! q = clients s ! q"
    and "length (clients s) \<le> length (clients (snd (Join s uid now)))"
    and "goroutines (snd (Join s uid now)) = goroutines s"
  using assms by (simp_all add: Join_def nth_append split: option.splits)

lemma Join_keeps:
  "map_of (streams s) v = Some p \<Longrightarrow> map_of (streams (snd (Join s uid now))) v = Some p"
  by (cases "v = uid") (auto simp: Join_def split: option.splits)

lemma run_goroutine_frame:
  assumes "run_goroutine s g = Inr s'"
  shows "streams s' = streams s" "goroutines s' = goroutines s"
    "length (clients s') = length (clients s)"
    "LastSeen (clients s' ! q) = LastSeen (clients s ! q)"
    "RateLimiter (clients s' ! q) = RateLimiter (clients s ! q)"
    "ID (clients s' ! q) = ID (clients s ! q)"
    "q \<noteq> fst g \<Longrightarrow> clients s' ! q = clients s ! q"
    "ch_closed (Ch (clients s' ! q)) = ch_closed (Ch (clients s ! q))"
proof -
  obtain p m where g: "g = (p, m)" by (cases g)
  have op: "\<not> ch_closed (Ch (clients s ! p))"
    using assms g run_goroutine_closed [of s p m] by auto
  let ?old = "Ch (clients s ! p)"
  let ?ch = "if length (ch_buf ?old) < ch_cap ?old then ?old\<lparr>ch_buf := ch_buf ?old @ [m]\<rparr> else ?old"
  have s': "s' = set_Ch s p ?ch" using assms g op by (simp add: run_goroutine_open)
  show "streams s' = streams s" "goroutines s' = goroutines s"
    "length (clients s') = length (clients s)"
    "LastSeen (clients s' ! q) = LastSeen (clients s ! q)"
    "RateLimiter (clients s' ! q) = RateLimiter (clients s ! q)"
    "ID (clients s' ! q) = ID (clients s ! q)"
    "q \<noteq> fst g \<Longrightarrow> clients s' ! q = clients s ! q"
    "ch_closed (Ch (clients s' ! q)) = ch_closed (Ch (clients s ! q))"
    unfolding s' using g by (simp_all add: set_Ch_nth)
qed

lemma deliver_frame:
  assumes "deliver s k = Inr s'"
  shows "streams s' = streams s" "length (clients s') = length (clients s)"
    "LastSeen (clients s' ! q) = LastSeen (clients s ! q)"
    "ID (clients s' ! q) = ID (clients s ! q)"
    "ch_closed (Ch (clients s' ! q)) = ch_closed (Ch (clients s ! q))"
proof -
  let ?s = "s\<lparr>goroutines := take k (goroutines s) @ drop (Suc k) (goroutines s)\<rparr>"
  have "streams s' = streams s \<and> length (clients s') = length (clients s) \<and>
    LastSeen (clients s' ! q) = LastSeen (clients s ! q) \<and>
    ID (clients s' ! q) = ID (clients s ! q) \<and>
    ch_closed (Ch (clients s' ! q)) = ch_closed (Ch (clients s ! q))"
  proof (cases "k < length (goroutines s)")
    case False
    with assms show ?thesis by (simp add: deliver_def)
  next
    case True
    with assms have r: "run_goroutine ?s (goroutines s ! k) = Inr s'" by (simp add: deliver_def)
    from run_goroutine_frame(1,3,4,6,8) [OF r] show ?thesis by simp
  qed
  then show "streams s' = streams s" "length (clients s') = length (clients s)"
    "LastSeen (clients s' ! q) = LastSeen (clients s ! q)"
    "ID (clients s' ! q) = ID (clients s ! q)"
    "ch_closed (Ch (clients s' ! q)) = ch_closed (Ch (clients s ! q))" by simp_all
qed

lemma Leave_frame:
  assumes "Leave s uid = Inr (r, s')"
  shows "length (clients s') = length (clients s)"
    "LastSeen (clients s' ! q) = LastSeen (clients s ! q)"
    "ID (clients s' ! q) = ID (clients s ! q)"
    "ch_buf (Ch (clients s' ! q)) = ch_buf (Ch (clients s ! q))"
    "v \<noteq> uid \<Longrightarrow> map_of (streams s') v = map_of (streams s) v"
    "goroutines s' = goroutines s"
  using assms
  by (auto simp: Leave_def Let_def close_chan_def set_Ch_nth AList.delete_conv'
      split: option.splits if_splits)

lemma step_frame:
  assumes "invariant s" "step s t a = Inr s'" "q < length (clients s)"
  shows "LastSeen (clients s' ! q) = LastSeen (clients s ! q)"
    and "ID (clients s' ! q) = ID (clients s ! q)"
    and "length (clients s) \<le> length (clients s')"
proof -
  have "LastSeen (clients s' ! q) = LastSeen (clients s ! q) \<and>
    ID (clients s' ! q) = ID (clients s ! q) \<and> length (clients s) \<le> length (clients s')"
  proof (cases a)
    case (DoJoin uid)
    with assms Join_frame(1,2) [OF assms(3), of uid t] show ?thesis by auto
  next
    case (DoSendMessage frm msg)
    with assms SendMessage_frame(2,3,5) [of s frm msg t] show ?thesis by auto
  next
    case (DoLeave uid)
    with assms obtain r where "Leave s uid = Inr (r, s')" by (auto split: sum.splits)
    from Leave_frame(1,2,3) [OF this] show ?thesis by simp
  next
    case (RunGoroutine k)
    with assms have "deliver s k = Inr s'" by simp
    from deliver_frame(2,3,4) [OF this] show ?thesis by simp
  next
    case CleanupTick
    with assms cleanup_props [OF assms(1), of t] show ?thesis by auto
  qed
  then show "LastSeen (clients s' ! q) = LastSeen (clients s ! q)"
    and "ID (clients s' ! q) = ID (clients s ! q)"
    and "length (clients s) \<le> length (clients s')" by simp_all
qed

lemma steps_length:
  "invariant s \<Longrightarrow> steps s env = Inr s' \<Longrightarrow> q < length (clients s) \<Longrightarrow>
     q < length (clients s')"
proof (induction env arbitrary: s)
  case Nil
  then show ?case by simp
next
  case (Cons e env)
  obtain t a where e: "e = (t, a)" by (cases e)
  from Cons.prems e obtain s1 where s1: "step s t a = Inr s1" "steps s1 env = Inr s'"
    by (auto split: sum.splits)
  from Cons.prems(1) s1(1) have i: "invariant s1" by (rule invariant_step)
  from step_frame(3) [OF Cons.prems(1) s1(1) Cons.prems(3)] Cons.prems(3)
  have "q < length (clients s1)" by simp
  from Cons.IH [OF i s1(2) this] show ?case .
qed

lemma steps_LastSeen:
  "invariant s \<Longrightarrow> steps s env = Inr s' \<Longrightarrow> q < length (clients s) \<Longrightarrow>
     LastSeen (clients s' ! q) = LastSeen (clients s ! q)"
proof (induction env arbitrary: s)
  case Nil
  then show ?case by simp
next
  case (Cons e env)
  obtain t a where e: "e = (t, a)" by (cases e)
  from Cons.prems e obtain s1 where s1: "step s t a = Inr s1" "steps s1 env = Inr s'"
    by (auto split: sum.splits)
  from Cons.prems(1) s1(1) have i: "invariant s1" by (rule invariant_step)
  from step_frame(1,3) [OF Cons.prems(1) s1(1) Cons.prems(3)] Cons.prems(3)
  have f: "LastSeen (clients s1 ! q) = LastSeen (clients s ! q)" "q < length (clients s1)"
    by simp_all
  from Cons.IH [OF i s1(2) f(2)] f(1) show ?case by simp
qed

lemma await_LastSeen:
  "invariant s \<Longrightarrow> q < length (clients s) \<Longrightarrow> await s c d env = Inr (r, s') \<Longrightarrow>
     LastSeen (clients s' ! q) = LastSeen (clients s ! q)"
proof (induction env arbitrary: s)
  case Nil
  show ?case
  proof (cases "idle s c")
    case True
    with Nil show ?thesis by (simp add: await_idle_Nil)
  next
    case False
    from not_idle_cases [OF this] Nil show ?thesis
      by (auto simp: await_message await_closed set_Ch_nth)
  qed
next
  case (Cons e env)
  obtain t a where e: "e = (t, a)" by (cases e)
  show ?case
  proof (cases "idle s c")
    case False
    from not_idle_cases [OF this] Cons.prems show ?thesis
      by (auto simp: await_message await_closed set_Ch_nth)
  next
    case True
    show ?thesis
    proof (cases "t < d")
      case False
      with True Cons.prems e show ?thesis by (simp add: await_idle_deadline)
    next
      case t: True
      show ?thesis
      proof (cases "step s t a")
        case (Inl p)
        with True t Cons.prems e show ?thesis by (simp add: await_idle_step)
      next
        case (Inr s1)
        with True t Cons.prems e have 1: "await s1 c d env = Inr (r, s')"
          by (simp add: await_idle_step)
        from Cons.prems(1) Inr have i: "invariant s1" by (rule invariant_step)
        from step_frame [OF Cons.prems(1) Inr Cons.prems(2)]
        have f: "LastSeen (clients s1 ! q) = LastSeen (clients s ! q)" "q < length (clients s1)"
          using Cons.prems(2) by simp_all
        from Cons.IH [OF i f(2) 1] f(1) show ?thesis by simp
      qed
    qed
  qed
qed

section \<open>The outcomes of GetMessage\<close>

lemma await_arrival:
  assumes "idle_during s c pre" "list_all (\<lambda>e. fst e < d) pre" "t < d"
    "steps s pre = Inr s1" "step s1 t a = Inr s2"
  shows "await s c d (pre @ (t, a) # rest) = await s2 c d rest"
proof -
  from await_idle_during [OF assms(1,2), of "(t, a) # rest"] assms(4)
  have "idle s1 c" "await s c d (pre @ (t, a) # rest) = await s1 c d ((t, a) # rest)"
    by auto
  with assms(3,5) show ?thesis by (simp add: await_idle_step)
qed

lemma await_quiet:
  assumes "idle_during s c (takeWhile (\<lambda>e. fst e < d) env)"
  shows "\<exists>s'. steps s (takeWhile (\<lambda>e. fst e < d) env) = Inr s' \<and>
     await s c d env = Inr (Inl ERR_NO_MESSAGES, s')"
proof -
  let ?pre = "takeWhile (\<lambda>e. fst e < d) env" and ?post = "dropWhile (\<lambda>e. fst e < d) env"
  have all: "list_all (\<lambda>e. fst e < d) ?pre"
    by (simp add: list_all_iff) (meson set_takeWhileD)
  from await_idle_during [OF assms all, of ?post] obtain s1 where s1:
    "steps s ?pre = Inr s1" "idle s1 c" "await s c d env = await s1 c d ?post" by auto
  have "await s1 c d ?post = Inr (Inl ERR_NO_MESSAGES, s1)"
  proof (cases ?post)
    case Nil
    from s1(2) show ?thesis unfolding Nil by (rule await_idle_Nil)
  next
    case (Cons e es)
    obtain t a where e: "e = (t, a)" by (cases e)
    from Cons have "\<not> fst (hd ?post) < d" using hd_dropWhile [of "\<lambda>e. fst e < d" env] by simp
    with Cons e have "d \<le> t" by simp
    with s1(2) Cons e show ?thesis by (simp add: await_idle_deadline)
  qed
  with s1 show ?thesis by simp
qed

text \<open>
  Claim C3. For a registered id, a \<^verbatim>\<open>GetMessage\<close> call that returns gives a message,
  \<open>ERR_USER_DISCONNECTED\<close> or \<open>ERR_NO_MESSAGES\<close>, and nothing else, whatever runs between
  its lookup and its write to \<^verbatim>\<open>LastSeen\<close> and whatever runs during its wait.
  (a) A message in the mailbox when the call reaches its \<^verbatim>\<open>select\<close> is returned at
  once, also from a mailbox closed meanwhile; a message that arrives while the call
  waits is returned on arrival. (b) A mailbox found closed and empty at the
  \<^verbatim>\<open>select\<close> ends the call with \<open>ERR_USER_DISCONNECTED\<close>: this is what happens when,
  between lookup and write, the cleanup loop evicts the client (its \<^verbatim>\<open>LastSeen\<close> being
  more than five minutes old at the tick) or a \<^verbatim>\<open>Leave\<close> removes it. When, while the
  call waits, an action leaves the mailbox closed and empty, the call fails with
  \<open>ERR_USER_DISCONNECTED\<close> as well; a \<^verbatim>\<open>Leave\<close> of the id does so. (c) When the
  mailbox stays empty and open through all actions before the deadline of 10 seconds,
  the call fails with \<open>ERR_NO_MESSAGES\<close>. The call goes on only while the process
  lives: the actions before and during the wait are assumed not to panic. A cleanup tick
  during the wait never removes the waiting client, whose \<^verbatim>\<open>LastSeen\<close> is then less
  than ten seconds old: the cleanup loop ends a call only through the window before the
  write.
\<close>

theorem C3_GetMessage_outcomes:
  assumes "invariant s" and "map_of (streams s) uid = Some p"
  shows
    "(\<forall>gap env r s'. GetMessage s uid gap now env = Inr (r, s') \<longrightarrow>
        r = Inl ERR_USER_DISCONNECTED \<or> r = Inl ERR_NO_MESSAGES \<or>
        (\<exists>m. r = Inr (MessageResponse m))) \<and>
     (\<forall>gap s0 env m ms. steps s gap = Inr s0 \<and> ch_buf (Ch (clients s0 ! p)) = m # ms \<longrightarrow>
        GetMessage s uid gap now env =
          Inr (Inr (MessageResponse m),
               set_Ch (set_LastSeen s0 p now) p ((Ch (clients s0 ! p))\<lparr>ch_buf := ms\<rparr>))) \<and>
     (\<forall>gap s0 pre t a rest s1 s2 m ms.
        steps s gap = Inr s0 \<and> idle_during (set_LastSeen s0 p now) p pre \<and>
        list_all (\<lambda>e. fst e < now + 10 * Second) pre \<and> t < now + 10 * Second \<and>
        steps (set_LastSeen s0 p now) pre = Inr s1 \<and> step s1 t a = Inr s2 \<and>
        ch_buf (Ch (clients s2 ! p)) = m # ms \<longrightarrow>
        GetMessage s uid gap now (pre @ (t, a) # rest) =
          Inr (Inr (MessageResponse m), set_Ch s2 p ((Ch (clients s2 ! p))\<lparr>ch_buf := ms\<rparr>))) \<and>
     (\<forall>gap s0 env.
        steps s gap = Inr s0 \<and> ch_buf (Ch (clients s0 ! p)) = [] \<and>
        ch_closed (Ch (clients s0 ! p)) \<longrightarrow>
        GetMessage s uid gap now env = Inr (Inl ERR_USER_DISCONNECTED, set_LastSeen s0 p now)) \<and>
     (\<forall>t env. ch_buf (Ch (clients s ! p)) = [] \<and> 5 * Minute < t - LastSeen (clients s ! p) \<longrightarrow>
        (\<exists>s0. cleanup s t = Inr s0 \<and> map_of (streams s0) uid = None \<and>
           GetMessage s uid [(t, CleanupTick)] now env =
             Inr (Inl ERR_USER_DISCONNECTED, set_LastSeen s0 p now))) \<and>
     (\<forall>t env. ch_buf (Ch (clients s ! p)) = [] \<longrightarrow>
        (\<exists>s0. step s t (DoLeave uid) = Inr s0 \<and> map_of (streams s0) uid = None \<and>
           GetMessage s uid [(t, DoLeave uid)] now env =
             Inr (Inl ERR_USER_DISCONNECTED, set_LastSeen s0 p now))) \<and>
     (\<forall>gap s0 pre t a rest s1 s2.
        steps s gap = Inr s0 \<and> idle_during (set_LastSeen s0 p now) p pre \<and>
        list_all (\<lambda>e. fst e < now + 10 * Second) pre \<and> t < now + 10 * Second \<and>
        steps (set_LastSeen s0 p now) pre = Inr s1 \<and> step s1 t a = Inr s2 \<and>
        ch_buf (Ch (clients s2 ! p)) = [] \<and> ch_closed (Ch (clients s2 ! p)) \<longrightarrow>
        GetMessage s uid gap now (pre @ (t, a) # rest) = Inr (Inl ERR_USER_DISCONNECTED, s2)) \<and>
     (\<forall>gap s0 pre t rest s1.
        steps s gap = Inr s0 \<and> idle_during (set_LastSeen s0 p now) p pre \<and>
        list_all (\<lambda>e. fst e < now + 10 * Second) pre \<and> t < now + 10 * Second \<and>
        steps (set_LastSeen s0 p now) pre = Inr s1 \<and> map_of (streams s1) uid = Some p \<longrightarrow>
        (\<exists>s2. step s1 t (DoLeave uid) = Inr s2 \<and>
           GetMessage s uid gap now (pre @ (t, DoLeave uid) # rest) =
             Inr (Inl ERR_USER_DISCONNECTED, s2))) \<and>
     (\<forall>gap s0 env.
        steps s gap = Inr s0 \<and>
        idle_during (set_LastSeen s0 p now) p
          (takeWhile (\<lambda>e. fst e < now + 10 * Second) env) \<longrightarrow>
        (\<exists>s'. steps (set_LastSeen s0 p now)
                 (takeWhile (\<lambda>e. fst e < now + 10 * Second) env) = Inr s' \<and>
           GetMessage s uid gap now env = Inr (Inl ERR_NO_MESSAGES, s'))) \<and>
     (\<forall>gap s0 pre t s1.
        steps s gap = Inr s0 \<and> steps (set_LastSeen s0 p now) pre = Inr s1 \<and>
        map_of (streams s1) uid = Some p \<and> t < now + 10 * Second \<longrightarrow>
        (\<exists>s2. step s1 t CleanupTick = Inr s2 \<and> map_of (streams s2) uid = Some p \<and>
           clients s2 ! p = clients s1 ! p))"
proof -
  let ?d = "now + 10 * Second"
  note G = GetMessage_window(1) [OF assms]
  have ch: "Ch (clients (set_LastSeen s0 p now) ! p) = Ch (clients s0 ! p)" for s0
    by (simp add: set_LastSeen_nth)
  have p: "p < length (clients s)" using assms by (rule invariant_lookup)
  have 1: "r = Inl ERR_USER_DISCONNECTED \<or> r = Inl ERR_NO_MESSAGES \<or>
        (\<exists>m. r = Inr (MessageResponse m))"
    if "GetMessage s uid gap now env = Inr (r, s')" for gap env r s'
  proof -
    from assms that obtain s0 where
      "await (set_LastSeen s0 p now) p ?d env = Inr (r, s')" by (rule GetMessage_returns)
    then show ?thesis by (rule await_outcome)
  qed
  have 2: "GetMessage s uid gap now env =
          Inr (Inr (MessageResponse m),
               set_Ch (set_LastSeen s0 p now) p ((Ch (clients s0 ! p))\<lparr>ch_buf := ms\<rparr>))"
    if "steps s gap = Inr s0" "ch_buf (Ch (clients s0 ! p)) = m # ms" for gap s0 env m ms
    using that(2) await_message [of "set_LastSeen s0 p now" p m ms ?d env]
    by (simp add: G [OF that(1)] ch)
  have 3: "GetMessage s uid gap now (pre @ (t, a) # rest) =
          Inr (Inr (MessageResponse m), set_Ch s2 p ((Ch (clients s2 ! p))\<lparr>ch_buf := ms\<rparr>))"
    if "steps s gap = Inr s0" "idle_during (set_LastSeen s0 p now) p pre"
      "list_all (\<lambda>e. fst e < ?d) pre" "t < ?d"
      "steps (set_LastSeen s0 p now) pre = Inr s1" "step s1 t a = Inr s2"
      "ch_buf (Ch (clients s2 ! p)) = m # ms"
    for gap s0 pre t a rest s1 s2 m ms
    using await_arrival [OF that(2-6), of rest] that(7)
    by (simp add: G [OF that(1)] await_message)
  have 4: "GetMessage s uid gap now env = Inr (Inl ERR_USER_DISCONNECTED, set_LastSeen s0 p now)"
    if "steps s gap = Inr s0" "ch_buf (Ch (clients s0 ! p)) = []"
      "ch_closed (Ch (clients s0 ! p))" for gap s0 env
    using that(2,3) await_closed [of "set_LastSeen s0 p now" p ?d env]
    by (simp add: G [OF that(1)] ch)
  have 5: "\<exists>s0. cleanup s t = Inr s0 \<and> map_of (streams s0) uid = None \<and>
           GetMessage s uid [(t, CleanupTick)] now env =
             Inr (Inl ERR_USER_DISCONNECTED, set_LastSeen s0 p now)"
    if "ch_buf (Ch (clients s ! p)) = []" "5 * Minute < t - LastSeen (clients s ! p)" for t env
  proof -
    from cleanup_evicts [OF assms that(2)] obtain s0 where s0:
      "cleanup s t = Inr s0" "map_of (streams s0) uid = None"
      "clients s0 ! p = (clients s ! p)\<lparr>Ch := (Ch (clients s ! p))\<lparr>ch_closed := True\<rparr>\<rparr>"
      by blast
    have st: "steps s [(t, CleanupTick)] = Inr s0" using s0(1) by simp
    have "ch_buf (Ch (clients s0 ! p)) = []" "ch_closed (Ch (clients s0 ! p))"
      using s0(3) that(1) by simp_all
    with st have "GetMessage s uid [(t, CleanupTick)] now env =
        Inr (Inl ERR_USER_DISCONNECTED, set_LastSeen s0 p now)" by (rule 4)
    with s0(1,2) show ?thesis by blast
  qed
  have 6: "\<exists>s0. step s t (DoLeave uid) = Inr s0 \<and> map_of (streams s0) uid = None \<and>
           GetMessage s uid [(t, DoLeave uid)] now env =
             Inr (Inl ERR_USER_DISCONNECTED, set_LastSeen s0 p now)"
    if "ch_buf (Ch (clients s ! p)) = []" for t env
  proof -
    let ?s0 = "set_Ch (s\<lparr>streams := AList.delete uid (streams s)\<rparr>) p
            ((Ch (clients s ! p))\<lparr>ch_closed := True\<rparr>)"
    have st: "step s t (DoLeave uid) = Inr ?s0"
      using Leave_success [OF assms] by simp
    then have sts: "steps s [(t, DoLeave uid)] = Inr ?s0" by simp
    have gone: "map_of (streams ?s0) uid = None"
      by (simp add: map_of_eq_None_iff set_delete image_iff)
    have "ch_buf (Ch (clients ?s0 ! p)) = []" "ch_closed (Ch (clients ?s0 ! p))"
      using that p by (simp_all add: set_Ch_nth)
    with sts have "GetMessage s uid [(t, DoLeave uid)] now env =
        Inr (Inl ERR_USER_DISCONNECTED, set_LastSeen ?s0 p now)" by (rule 4)
    with st gone show ?thesis by blast
  qed
  have 7: "GetMessage s uid gap now (pre @ (t, a) # rest) = Inr (Inl ERR_USER_DISCONNECTED, s2)"
    if "steps s gap = Inr s0" "idle_during (set_LastSeen s0 p now) p pre"
      "list_all (\<lambda>e. fst e < ?d) pre" "t < ?d"
      "steps (set_LastSeen s0 p now) pre = Inr s1" "step s1 t a = Inr s2"
      "ch_buf (Ch (clients s2 ! p)) = []" "ch_closed (Ch (clients s2 ! p))"
    for gap s0 pre t a rest s1 s2
    using await_arrival [OF that(2-6), of rest] that(7,8)
    by (simp add: G [OF that(1)] await_closed)
  have 8: "\<exists>s2. step s1 t (DoLeave uid) = Inr s2 \<and>
           GetMessage s uid gap now (pre @ (t, DoLeave uid) # rest) =
             Inr (Inl ERR_USER_DISCONNECTED, s2)"
    if "steps s gap = Inr s0" "idle_during (set_LastSeen s0 p now) p pre"
      "list_all (\<lambda>e. fst e < ?d) pre" "t < ?d"
      "steps (set_LastSeen s0 p now) pre = Inr s1" "map_of (streams s1) uid = Some p"
    for gap s0 pre t rest s1
  proof -
    have "invariant s0" using assms(1) that(1) by (rule invariant_steps)
    then have "invariant (set_LastSeen s0 p now)" by (rule invariant_set_LastSeen)
    then have i1: "invariant s1" using that(5) by (rule invariant_steps)
    from await_idle_during [OF that(2,3), of "[]"] that(5) have idle1: "idle s1 p" by auto
    let ?s2 = "set_Ch (s1\<lparr>streams := AList.delete uid (streams s1)\<rparr>) p
            ((Ch (clients s1 ! p))\<lparr>ch_closed := True\<rparr>)"
    have p1: "p < length (clients s1)" using i1 that(6) by (rule invariant_lookup)
    have st: "step s1 t (DoLeave uid) = Inr ?s2"
      using Leave_success [OF i1 that(6)] by simp
    have "ch_buf (Ch (clients ?s2 ! p)) = []" "ch_closed (Ch (clients ?s2 ! p))"
      using idle1 p1 by (simp_all add: set_Ch_nth idle_def)
    with 7 [OF that(1-5) st] st show ?thesis by blast
  qed
  have 9: "\<exists>s'. steps (set_LastSeen s0 p now) (takeWhile (\<lambda>e. fst e < ?d) env) = Inr s' \<and>
           GetMessage s uid gap now env = Inr (Inl ERR_NO_MESSAGES, s')"
    if "steps s gap = Inr s0"
      "idle_during (set_LastSeen s0 p now) p (takeWhile (\<lambda>e. fst e < ?d) env)" for gap s0 env
    using await_quiet [OF that(2)] by (simp add: G [OF that(1)])
  have 10: "\<exists>s2. step s1 t CleanupTick = Inr s2 \<and> map_of (streams s2) uid = Some p \<and>
           clients s2 ! p = clients s1 ! p"
    if "steps s gap = Inr s0" "steps (set_LastSeen s0 p now) pre = Inr s1"
      "map_of (streams s1) uid = Some p" "t < ?d" for gap s0 pre t s1
  proof -
    have i0: "invariant s0" using assms(1) that(1) by (rule invariant_steps)
    have p0: "p < length (clients s0)" using assms(1) that(1) p by (rule steps_length)
    have iA: "invariant (set_LastSeen s0 p now)" using i0 by (rule invariant_set_LastSeen)
    have pA: "p < length (clients (set_LastSeen s0 p now))" using p0 by simp
    have "LastSeen (clients (set_LastSeen s0 p now) ! p) = now"
      using p0 by (simp add: set_LastSeen_nth)
    with steps_LastSeen [OF iA that(2) pA] have seen: "LastSeen (clients s1 ! p) = now" by simp
    have i1: "invariant s1" using iA that(2) by (rule invariant_steps)
    have "t - LastSeen (clients s1 ! p) \<le> 5 * Minute"
      using that(4) seen by (simp add: Minute_def Second_def)
    from cleanup_keeps [OF i1 that(3) this] show ?thesis by simp
  qed
  show ?thesis
    apply (intro conjI allI impI)
    subgoal by (rule 1)
    subgoal by (elim conjE) (rule 2; assumption)
    subgoal by (elim conjE) (rule 3; assumption)
    subgoal by (elim conjE) (rule 4; assumption)
    subgoal by (elim conjE) (rule 5; assumption)
    subgoal by (rule 6)
    subgoal by (elim conjE) (rule 7; assumption)
    subgoal by (elim conjE) (rule 8; assumption)
    subgoal by (elim conjE) (rule 9; assumption)
    subgoal by (elim conjE) (rule 10; assumption)
    done
qed

lemma two_clients_invariant: "invariant two_clients"
  by code_simp

lemma two_clients_lookup:
  "map_of (streams two_clients) ''a'' = Some 0" "map_of (streams two_clients) ''b'' = Some 1"
  by code_simp+

text \<open>
  In the service with clients \<open>a\<close> and \<open>b\<close>, both last seen at time 0, \<open>b\<close> polls.
  When the cleanup loop ticks at minute 6, after the lookup of the call and before its
  write, the call is disconnected, and so it is when \<open>b\<close> leaves there. With nothing in
  between and the write at time 2 (nanoseconds): when \<open>b\<close> leaves at time 3 the call is
  disconnected; when only \<open>c\<close> joins, it times out; when \<open>a\<close> sends at time 3 and the
  goroutine runs at time 4, it returns the message; and a cleanup tick at time 3 leaves
  \<open>b\<close> registered.
\<close>

theorem C3_GetMessage_outcomes_witness:
  "(\<exists>s'. GetMessage two_clients ''b'' [(6 * Minute, CleanupTick)] (6 * Minute + 1) [] =
      Inr (Inl ERR_USER_DISCONNECTED, s')) \<and>
   (\<exists>s'. GetMessage two_clients ''b'' [(1, DoLeave ''b'')] 2 [] =
      Inr (Inl ERR_USER_DISCONNECTED, s')) \<and>
   (\<exists>s'. GetMessage two_clients ''b'' [] 2 [(3, DoLeave ''b'')] =
      Inr (Inl ERR_USER_DISCONNECTED, s')) \<and>
   (\<exists>s'. GetMessage two_clients ''b'' [] 2 [(3, DoJoin ''c'')] = Inr (Inl ERR_NO_MESSAGES, s')) \<and>
   (\<exists>s'. GetMessage two_clients ''b'' [] 2 [(3, DoSendMessage ''a'' ''yo''), (4, RunGoroutine 0)] =
      Inr (Inr (MessageResponse ''a: yo''), s')) \<and>
   (\<exists>s2. step (set_LastSeen two_clients 1 2) 3 CleanupTick = Inr s2 \<and>
      map_of (streams s2) ''b'' = Some 1)"
proof -
  note T = C3_GetMessage_outcomes [OF two_clients_invariant two_clients_lookup(2)]
  note T3 = T [of 2, THEN conjunct2, THEN conjunct2, THEN conjunct1, rule_format]
  note T5 = T [of "6 * Minute + 1", THEN conjunct2, THEN conjunct2, THEN conjunct2,
      THEN conjunct2, THEN conjunct1, rule_format]
  note T6 = T [of 2, THEN conjunct2, THEN conjunct2, THEN conjunct2, THEN conjunct2,
      THEN conjunct2, THEN conjunct1, rule_format]
  note T8 = T [of 2, THEN conjunct2, THEN conjunct2, THEN conjunct2, THEN conjunct2,
      THEN conjunct2, THEN conjunct2, THEN conjunct2, THEN conjunct1, rule_format]
  note T9 = T [of 2, THEN conjunct2, THEN conjunct2, THEN conjunct2, THEN conjunct2,
      THEN conjunct2, THEN conjunct2, THEN conjunct2, THEN conjunct2, THEN conjunct1,
      rule_format]
  note T10 = T [of 2, THEN conjunct2, THEN conjunct2, THEN conjunct2, THEN conjunct2,
      THEN conjunct2, THEN conjunct2, THEN conjunct2, THEN conjunct2, THEN conjunct2,
      rule_format]
  let ?s = "set_LastSeen two_clients 1 2"
  have r: "\<exists>s'. GetMessage two_clients ''b'' [(6 * Minute, CleanupTick)] (6 * Minute + 1) [] =
      Inr (Inl ERR_USER_DISCONNECTED, s')"
  proof -
    have h: "ch_buf (Ch (clients two_clients ! 1)) = [] \<and>
      5 * Minute < 6 * Minute - LastSeen (clients two_clients ! 1)"
      by code_simp
    from T5 [OF h, of "[]"] show ?thesis by auto
  qed
  have l: "\<exists>s'. GetMessage two_clients ''b'' [(1, DoLeave ''b'')] 2 [] =
      Inr (Inl ERR_USER_DISCONNECTED, s')"
  proof -
    have h: "ch_buf (Ch (clients two_clients ! 1)) = []"
      by code_simp
    from T6 [OF h, of 1 "[]"] show ?thesis by auto
  qed
  have b: "\<exists>s'. GetMessage two_clients ''b'' [] 2 [(3, DoLeave ''b'')] =
      Inr (Inl ERR_USER_DISCONNECTED, s')"
  proof -
    have h: "steps two_clients [] = Inr two_clients \<and> idle_during ?s 1 [] \<and>
      list_all (\<lambda>e. fst e < 2 + 10 * Second) [] \<and>
      3 < 2 + 10 * Second \<and> steps ?s [] = Inr ?s \<and> map_of (streams ?s) ''b'' = Some 1"
      by code_simp
    from T8 [OF h, of "[]"] show ?thesis by auto
  qed
  have c: "\<exists>s'. GetMessage two_clients ''b'' [] 2 [(3, DoJoin ''c'')] = Inr (Inl ERR_NO_MESSAGES, s')"
  proof -
    have h: "steps two_clients [] = Inr two_clients \<and>
      idle_during ?s 1 (takeWhile (\<lambda>e. fst e < 2 + 10 * Second) [(3, DoJoin ''c'')])"
      by code_simp
    from T9 [OF h] show ?thesis by auto
  qed
  have a: "\<exists>s'. GetMessage two_clients ''b'' [] 2 [(3, DoSendMessage ''a'' ''yo''), (4, RunGoroutine 0)] =
      Inr (Inr (MessageResponse ''a: yo''), s')"
  proof -
    let ?s1 = "snd (SendMessage ?s ''a'' ''yo'' 3)"
    let ?s2 = "projr (deliver ?s1 0)"
    have h: "steps two_clients [] = Inr two_clients \<and>
      idle_during ?s 1 [(3, DoSendMessage ''a'' ''yo'')] \<and>
      list_all (\<lambda>e. fst e < 2 + 10 * Second) [(3, DoSendMessage ''a'' ''yo'')] \<and>
      4 < 2 + 10 * Second \<and> steps ?s [(3, DoSendMessage ''a'' ''yo'')] = Inr ?s1 \<and>
      step ?s1 4 (RunGoroutine 0) = Inr ?s2 \<and> ch_buf (Ch (clients ?s2 ! 1)) = ''a: yo'' # []"
      by code_simp
    from T3 [OF h, of "[]"] show ?thesis by auto
  qed
  have k: "\<exists>s2. step (set_LastSeen two_clients 1 2) 3 CleanupTick = Inr s2 \<and>
      map_of (streams s2) ''b'' = Some 1"
  proof -
    have h: "steps two_clients [] = Inr two_clients \<and> steps ?s [] = Inr ?s \<and>
      map_of (streams ?s) ''b'' = Some 1 \<and> 3 < 2 + 10 * Second"
      by code_simp
    from T10 [OF h] show ?thesis by blast
  qed
  from r l b c a k show ?thesis by simp
qed

section \<open>GetMessage and the registry\<close>

lemma await_alone_frame:
  assumes "await s c d [] = Inr (r, s')"
  shows "streams s' = streams s \<and> goroutines s' = goroutines s \<and>
     length (clients s') = length (clients s) \<and>
     (\<forall>q. q \<noteq> c \<longrightarrow> clients s' ! q = clients s ! q) \<and>
     ID (clients s' ! c) = ID (clients s ! c) \<and>
     LastSeen (clients s' ! c) = LastSeen (clients s ! c) \<and>
     RateLimiter (clients s' ! c) = RateLimiter (clients s ! c)"
proof (cases "idle s c")
  case True
  with assms show ?thesis by (simp add: await_idle_Nil)
next
  case False
  from not_idle_cases [OF this] assms show ?thesis
    by (auto simp: await_message await_closed set_Ch_nth)
qed

text \<open>
  Claim C9. For a registered id, \<^verbatim>\<open>GetMessage\<close> writes the current time to the
  client's \<open>LastSeen\<close> before its \<^verbatim>\<open>select\<close>, so the client's \<open>LastSeen\<close> is the time
  of that write when the call returns, whatever the outcome and whatever other
  goroutines did meanwhile, between the lookup and the write as well as during the wait;
  with an empty open mailbox and nothing else going on, the call returns
  \<open>ERR_NO_MESSAGES\<close> and the write to \<open>LastSeen\<close> is its only effect. A call on its own
  leaves the registry, the pending goroutines and every other client as they were, and
  of its own client changes nothing but \<open>LastSeen\<close> and the mailbox.
\<close>

theorem C9_GetMessage_refreshes_LastSeen:
  assumes "invariant s" and "map_of (streams s) uid = Some p"
  shows
    "(\<forall>env. GetMessage s uid [] now env =
        await (set_LastSeen s p now) p (now + 10 * Second) env) \<and>
     (\<forall>gap env r s'. GetMessage s uid gap now env = Inr (r, s') \<longrightarrow>
        LastSeen (clients s' ! p) = now) \<and>
     (idle s p \<longrightarrow> GetMessage s uid [] now [] = Inr (Inl ERR_NO_MESSAGES, set_LastSeen s p now)) \<and>
     (\<forall>r s'. GetMessage s uid [] now [] = Inr (r, s') \<longrightarrow>
        streams s' = streams s \<and> goroutines s' = goroutines s \<and>
        length (clients s') = length (clients s) \<and>
        (\<forall>q. q \<noteq> p \<longrightarrow> clients s' ! q = clients s ! q) \<and>
        ID (clients s' ! p) = ID (clients s ! p) \<and>
        RateLimiter (clients s' ! p) = RateLimiter (clients s ! p)) \<and>
     (\<forall>gap s0 env. steps s gap = Inr s0 \<longrightarrow>
        GetMessage s uid gap now env =
          await (set_LastSeen s0 p now) p (now + 10 * Second) env)"
proof -
  let ?s = "set_LastSeen s p now" and ?d = "now + 10 * Second"
  have G: "GetMessage s uid [] now env = await ?s p ?d env" for env
    using assms by (rule GetMessage_registered)
  have p: "p < length (clients s)" using assms by (rule invariant_lookup)
  have 2: "LastSeen (clients s' ! p) = now"
    if "GetMessage s uid gap now env = Inr (r, s')" for gap env r s'
  proof -
    from assms that obtain s0 where s0: "steps s gap = Inr s0" "invariant s0"
      "await (set_LastSeen s0 p now) p ?d env = Inr (r, s')" by (rule GetMessage_returns)
    have p0: "p < length (clients s0)" using assms(1) s0(1) p by (rule steps_length)
    have inv: "invariant (set_LastSeen s0 p now)" using s0(2) by (rule invariant_set_LastSeen)
    have seen: "LastSeen (clients (set_LastSeen s0 p now) ! p) = now"
      using p0 by (simp add: set_LastSeen_nth)
    from await_LastSeen [OF inv, of p p ?d env r s'] s0(3) p0 seen show ?thesis by simp
  qed
  have 3: "GetMessage s uid [] now [] = Inr (Inl ERR_NO_MESSAGES, ?s)" if "idle s p"
  proof -
    from that have "idle ?s p" by (simp add: idle_def set_LastSeen_nth)
    then show ?thesis by (simp add: G await_idle_Nil)
  qed
  have 4: "streams s' = streams s \<and> goroutines s' = goroutines s \<and>
        length (clients s') = length (clients s) \<and>
        (\<forall>q. q \<noteq> p \<longrightarrow> clients s' ! q = clients s ! q) \<and>
        ID (clients s' ! p) = ID (clients s ! p) \<and>
        RateLimiter (clients s' ! p) = RateLimiter (clients s ! p)"
    if "GetMessage s uid [] now [] = Inr (r, s')" for r s'
  proof -
    from that have "await ?s p ?d [] = Inr (r, s')" by (simp add: G)
    from await_alone_frame [OF this] show ?thesis by (simp add: set_LastSeen_nth)
  qed
  have 5: "GetMessage s uid gap now env = await (set_LastSeen s0 p now) p ?d env"
    if "steps s gap = Inr s0" for gap s0 env
    using assms that by (rule GetMessage_window(1))
  show ?thesis
    apply (intro conjI allI impI)
    subgoal by (rule G)
    subgoal by (rule 2)
    subgoal by (rule 3)
    subgoal by (rule 4 [THEN conjunct1])
    subgoal by (rule 4 [THEN conjunct2, THEN conjunct1])
    subgoal by (rule 4 [THEN conjunct2, THEN conjunct2, THEN conjunct1])
    subgoal using 4 by blast
    subgoal by (rule 4 [THEN conjunct2, THEN conjunct2, THEN conjunct2, THEN conjunct2, THEN conjunct1])
    subgoal by (rule 4 [THEN conjunct2, THEN conjunct2, THEN conjunct2, THEN conjunct2, THEN conjunct2])
    subgoal by (rule 5)
    done
qed

text \<open>
  \<open>b\<close> polls at time 7 with nothing in its mailbox: the call times out, and afterwards
  \<open>b\<close> was last seen at 7 while \<open>a\<close> is untouched and the registry is as before.
\<close>

theorem C9_GetMessage_refreshes_LastSeen_witness:
  "GetMessage two_clients ''b'' [] 7 [] = Inr (Inl ERR_NO_MESSAGES, set_LastSeen two_clients 1 7) \<and>
   LastSeen (clients (set_LastSeen two_clients 1 7) ! 1) = 7 \<and>
   streams (set_LastSeen two_clients 1 7) = streams two_clients \<and>
   clients (set_LastSeen two_clients 1 7) ! 0 = clients two_clients ! 0"
proof -
  note T = C9_GetMessage_refreshes_LastSeen [OF two_clients_invariant two_clients_lookup(2), of 7]
  have i: "idle two_clients 1" by code_simp
  from T [THEN conjunct2, THEN conjunct2, THEN conjunct1, rule_format, OF i]
  have 1: "GetMessage two_clients ''b'' [] 7 [] =
    Inr (Inl ERR_NO_MESSAGES, set_LastSeen two_clients 1 7)" .
  from T [THEN conjunct2, THEN conjunct1, rule_format, OF 1]
  have 2: "LastSeen (clients (set_LastSeen two_clients 1 7) ! 1) = 7" .
  from T [THEN conjunct2, THEN conjunct2, THEN conjunct2, THEN conjunct1, rule_format, OF 1]
  have 3: "streams (set_LastSeen two_clients 1 7) = streams two_clients"
    and 4: "clients (set_LastSeen two_clients 1 7) ! 0 = clients two_clients ! 0" by simp_all
  from 1 2 3 4 show ?thesis by simp
qed

section \<open>A broadcast without receivers\<close>

lemma goroutines_same [simp]: "s\<lparr>goroutines := goroutines s\<rparr> = s"
  by (cases s) simp

text \<open>
  Claim C6. The sender is the only registered client and the message is valid. When the
  limiter has a token for the call, \<^verbatim>\<open>SendMessage\<close> fails with \<open>ERR_NO_RECEIVERS\<close>
  and the token stays consumed: the state returned holds the limiter as
  \<^verbatim>\<open>Allow\<close> left it, one token below what the bucket held at the call, and differs
  from the state before in nothing else. (Without a token the call fails with
  \<open>ERR_RATE_LIMIT\<close> before the receivers are counted.)
\<close>

theorem C6_no_receivers_spends_token:
  assumes "invariant s" and "map_of (streams s) frm = Some p"
    and "msg \<noteq> []" and "length msg \<le> 500"
    and "list_all (\<lambda>e. fst e = frm) (streams s)"
  shows
    "(fst (Allow (RateLimiter (clients s ! p)) now) \<longleftrightarrow>
        Second \<le> advance (RateLimiter (clients s ! p)) now) \<and>
     (fst (Allow (RateLimiter (clients s ! p)) now) \<longrightarrow>
        SendMessage s frm msg now =
          (Inl ERR_NO_RECEIVERS,
           set_RateLimiter s p (snd (Allow (RateLimiter (clients s ! p)) now))) \<and>
        lim_tokens (RateLimiter (clients (snd (SendMessage s frm msg now)) ! p)) =
          advance (RateLimiter (clients s ! p)) now - Second \<and>
        lim_last (RateLimiter (clients (snd (SendMessage s frm msg now)) ! p)) = now) \<and>
     (\<not> fst (Allow (RateLimiter (clients s ! p)) now) \<longrightarrow>
        fst (SendMessage s frm msg now) = Inl ERR_RATE_LIMIT)"
proof -
  let ?lim = "RateLimiter (clients s ! p)"
  have frm: "frm \<noteq> []" using assms(1,2) by (rule invariant_lookup)
  have p: "p < length (clients s)" using assms(1,2) by (rule invariant_lookup)
  have ok: "client_ok (clients s ! p)" using assms(1,2) by (rule invariant_lookup)
  have none: "filter (\<lambda>e. fst e \<noteq> frm) (streams s) = []"
    using assms(5) by (simp add: list_all_iff filter_empty_conv)
  have 1: "fst (Allow ?lim now) \<longleftrightarrow> Second \<le> advance ?lim now"
    using ok by (simp add: Allow_iff client_ok_def)
  have 2: "SendMessage s frm msg now = (Inl ERR_NO_RECEIVERS, set_RateLimiter s p (snd (Allow ?lim now)))"
    if "fst (Allow ?lim now)"
    using SendMessage_allowed [OF frm assms(3,4,2) that] none by simp
  have 3: "lim_tokens (RateLimiter (clients (snd (SendMessage s frm msg now)) ! p)) =
          advance ?lim now - Second \<and>
        lim_last (RateLimiter (clients (snd (SendMessage s frm msg now)) ! p)) = now"
    if "fst (Allow ?lim now)"
    using 2 [OF that] p by (simp add: set_RateLimiter_nth Allow_True [OF that])
  have 4: "fst (SendMessage s frm msg now) = Inl ERR_RATE_LIMIT" if "\<not> fst (Allow ?lim now)"
    using SendMessage_rate_limited [OF frm assms(3,4,2) that] by simp
  from 1 2 3 4 show ?thesis by simp
qed

text \<open>
  \<open>a\<close> is alone and sends at time 1: the call fails with \<open>ERR_NO_RECEIVERS\<close> and leaves
  four of the five tokens. Six such calls within six nanoseconds: five fail for want of
  receivers, the sixth for want of a token.
\<close>

theorem C6_no_receivers_spends_token_witness:
  "fst (SendMessage one_client ''a'' ''hi'' 1) = Inl ERR_NO_RECEIVERS \<and>
   lim_tokens (RateLimiter (clients one_client ! 0)) = 5 * Second \<and>
   lim_tokens (RateLimiter (clients (snd (SendMessage one_client ''a'' ''hi'' 1)) ! 0)) = 4 * Second \<and>
   fst (send_all one_client ''a''
     [(1, ''hi''), (2, ''hi''), (3, ''hi''), (4, ''hi''), (5, ''hi''), (6, ''hi'')]) =
     [Inl ERR_NO_RECEIVERS, Inl ERR_NO_RECEIVERS, Inl ERR_NO_RECEIVERS, Inl ERR_NO_RECEIVERS,
      Inl ERR_NO_RECEIVERS, Inl ERR_RATE_LIMIT]"
proof -
  have i: "invariant one_client" by code_simp
  have l: "map_of (streams one_client) ''a'' = Some 0" by code_simp
  have m: "''hi'' \<noteq> []" "length ''hi'' \<le> 500" by simp_all
  have o: "list_all (\<lambda>e. fst e = ''a'') (streams one_client)" by code_simp
  have a: "fst (Allow (RateLimiter (clients one_client ! 0)) 1)" by code_simp
  have adv: "advance (RateLimiter (clients one_client ! 0)) 1 = 5 * Second" by code_simp
  note T = C6_no_receivers_spends_token [OF i l m o, of 1, THEN conjunct2, THEN conjunct1,
      rule_format, OF a]
  from T [THEN conjunct1]
  have 1: "fst (SendMessage one_client ''a'' ''hi'' 1) = Inl ERR_NO_RECEIVERS" by simp
  from T [THEN conjunct2, THEN conjunct1] adv have 2:
    "lim_tokens (RateLimiter (clients (snd (SendMessage one_client ''a'' ''hi'' 1)) ! 0)) = 4 * Second"
    by simp
  have 3: "lim_tokens (RateLimiter (clients one_client ! 0)) = 5 * Second" by code_simp
  have 4: "fst (send_all one_client ''a''
     [(1, ''hi''), (2, ''hi''), (3, ''hi''), (4, ''hi''), (5, ''hi''), (6, ''hi'')]) =
     [Inl ERR_NO_RECEIVERS, Inl ERR_NO_RECEIVERS, Inl ERR_NO_RECEIVERS, Inl ERR_NO_RECEIVERS,
      Inl ERR_NO_RECEIVERS, Inl ERR_RATE_LIMIT]" by code_simp
  from 1 2 3 4 show ?thesis by simp
qed

section \<open>The token bucket under repeated sends\<close>

lemma advance_later:
  assumes "lim_rate lim = 1" "t \<le> t'"
  shows "advance lim t' \<le> advance lim t + (t' - t)"
  using assms by (simp add: advance_def Let_def)

lemma advance_after_Allow:
  assumes "lim_rate lim = 1" "t \<le> t'" "fst (Allow lim t)"
  shows "advance (snd (Allow lim t)) t' \<le> advance lim t - Second + (t' - t)"
  using assms by (simp add: Allow_True advance_def [of "lim\<lparr>lim_tokens := x, lim_last := y\<rparr>" for x y] Let_def)

lemma advance_refilled:
  assumes "lim_rate lim = 1" "lim_burst lim = 5" "0 \<le> lim_tokens lim" "lim_last lim + Second \<le> now"
  shows "fst (Allow lim now)"
proof -
  have "0 < Second" by (simp add: Second_def)
  with assms show ?thesis by (simp add: Allow_iff advance_def Let_def)
qed

lemma SendMessage_success_receivers:
  "fst (SendMessage s frm msg t) = Inr r \<Longrightarrow> filter (\<lambda>e. fst e \<noteq> frm) (streams s) \<noteq> []"
  by (simp add: SendMessage_def Let_def split_beta fan_out_eq split: option.splits if_splits)

lemma SendMessage_success_allowed:
  assumes "\<not> isl (fst (SendMessage s frm msg t))" "map_of (streams s) frm = Some p"
  shows "fst (Allow (RateLimiter (clients s ! p)) t)"
  using assms by (simp add: SendMessage_def Let_def split_beta split: if_splits)

lemma SendMessage_limiter:
  assumes "map_of (streams s) frm = Some p" "p < length (clients s)"
  shows "RateLimiter (clients (snd (SendMessage s frm msg t)) ! p) =
     (if frm = [] \<or> msg = [] \<or> 500 < length msg then RateLimiter (clients s ! p)
      else snd (Allow (RateLimiter (clients s ! p)) t))"
  using assms by (simp add: SendMessage_def Let_def split_beta set_RateLimiter_nth)

lemma SendMessage_bucket:
  assumes "invariant s" "map_of (streams s) frm = Some p" "t \<le> t'"
  shows "advance (RateLimiter (clients (snd (SendMessage s frm msg t)) ! p)) t' +
      (if isl (fst (SendMessage s frm msg t)) then 0 else Second)
     \<le> advance (RateLimiter (clients s ! p)) t + (t' - t)"
proof -
  let ?lim = "RateLimiter (clients s ! p)"
  have p: "p < length (clients s)" using assms(1,2) by (rule invariant_lookup)
  have "client_ok (clients s ! p)" using assms(1,2) by (rule invariant_lookup)
  then have rate: "lim_rate ?lim = 1" by (simp add: client_ok_def)
  have pos: "0 < Second" by (simp add: Second_def)
  note lim = SendMessage_limiter [OF assms(2) p, of msg t]
  show ?thesis
  proof (cases "isl (fst (SendMessage s frm msg t))")
    case False
    then have a: "fst (Allow ?lim t)" using assms(2) by (rule SendMessage_success_allowed)
    have "\<not> (frm = [] \<or> msg = [] \<or> 500 < length msg)"
    proof
      assume "frm = [] \<or> msg = [] \<or> 500 < length msg"
      then have "isl (fst (SendMessage s frm msg t))" by (auto simp: SendMessage_def)
      with False show False by simp
    qed
    with lim have "RateLimiter (clients (snd (SendMessage s frm msg t)) ! p) = snd (Allow ?lim t)"
      by simp
    with advance_after_Allow [OF rate assms(3) a] False show ?thesis by simp
  next
    case True
    show ?thesis
    proof (cases "fst (Allow ?lim t)")
      case a: True
      from lim have "RateLimiter (clients (snd (SendMessage s frm msg t)) ! p) = ?lim \<or>
        RateLimiter (clients (snd (SendMessage s frm msg t)) ! p) = snd (Allow ?lim t)"
        by (simp split: if_splits)
      with advance_after_Allow [OF rate assms(3) a] advance_later [OF rate assms(3)] pos True
      show ?thesis by auto
    next
      case False
      with lim have "RateLimiter (clients (snd (SendMessage s frm msg t)) ! p) = ?lim"
        by (simp split: if_splits)
      with advance_later [OF rate assms(3)] True show ?thesis by simp
    qed
  qed
qed

lemma succeeded_Nil [simp]: "succeeded [] = 0"
  by (simp add: succeeded_def)

lemma succeeded_Cons: "succeeded (r # rs) = (if isl r then 0 else 1) + succeeded rs"
  by (simp add: succeeded_def)

lemma send_all_Cons:
  "send_all s frm ((t, msg) # rest) =
     (fst (SendMessage s frm msg t) # fst (send_all (snd (SendMessage s frm msg t)) frm rest),
      snd (send_all (snd (SendMessage s frm msg t)) frm rest))"
  by (simp add: split_beta)

declare send_all.simps(2) [simp del]

lemma send_all_append:
  "send_all s frm (xs @ ys) =
     (fst (send_all s frm xs) @ fst (send_all (snd (send_all s frm xs)) frm ys),
      snd (send_all (snd (send_all s frm xs)) frm ys))"
proof (induction xs arbitrary: s)
  case Nil
  show ?case by simp
next
  case (Cons x xs)
  obtain t msg where x: "x = (t, msg)" by (cases x)
  show ?case using Cons.IH [of "snd (SendMessage s frm msg t)"] by (simp add: x send_all_Cons)
qed

lemma send_all_keeps:
  "invariant s \<Longrightarrow> invariant (snd (send_all s frm calls))"
  "streams (snd (send_all s frm calls)) = streams s"
proof (induction calls arbitrary: s)
  case Nil
  { case 1 then show ?case by simp }
  { case 2 show ?case by simp }
next
  case (Cons c calls)
  obtain t msg where c: "c = (t, msg)" by (cases c)
  { case 1
    then have "invariant (snd (SendMessage s frm msg t))" by (rule invariant_SendMessage)
    from Cons.IH(1) [OF this] show ?case by (simp add: c send_all_Cons) }
  { case 2
    show ?case using Cons.IH(2) [of "snd (SendMessage s frm msg t)"]
      by (simp add: c send_all_Cons SendMessage_frame) }
qed

lemma send_all_count:
  assumes "invariant s" "map_of (streams s) frm = Some p" "sorted (map fst (c # cs))"
  shows "int (succeeded (fst (send_all s frm (c # cs)))) * Second
     \<le> max 0 (advance (RateLimiter (clients s ! p)) (fst c)) + (fst (last (c # cs)) - fst c)"
  using assms
proof (induction cs arbitrary: c s)
  case Nil
  obtain t msg where c: "c = (t, msg)" by (cases c)
  show ?case
  proof (cases "isl (fst (SendMessage s frm msg t))")
    case True
    then show ?thesis by (simp add: c send_all_Cons succeeded_Cons)
  next
    case False
    from SendMessage_success_allowed [OF this Nil.prems(2)]
    have "Second \<le> advance (RateLimiter (clients s ! p)) t" by (simp add: Allow_iff)
    with False show ?thesis by (simp add: c send_all_Cons succeeded_Cons)
  qed
next
  case (Cons c' cs)
  obtain t msg where c: "c = (t, msg)" by (cases c)
  obtain t' msg' where c': "c' = (t', msg')" by (cases c')
  let ?s1 = "snd (SendMessage s frm msg t)"
  let ?rest = "succeeded (fst (send_all ?s1 frm (c' # cs)))"
  have le: "t \<le> t'" using Cons.prems(3) c c' by simp
  have i1: "invariant ?s1" using Cons.prems(1) by (rule invariant_SendMessage)
  have l1: "map_of (streams ?s1) frm = Some p" using Cons.prems(2) by (simp add: SendMessage_frame)
  have s1: "sorted (map fst (c' # cs))" using Cons.prems(3) by simp
  define L where "L = fst (last (c' # cs))"
  define A where "A = advance (RateLimiter (clients s ! p)) t"
  define A1 where "A1 = advance (RateLimiter (clients ?s1 ! p)) t'"
  from Cons.IH [OF i1 l1 s1] c'
  have IH: "int ?rest * Second \<le> max 0 A1 + (L - t')"
    by (simp add: L_def A1_def del: last.simps)
  have b: "A1 + (if isl (fst (SendMessage s frm msg t)) then 0 else Second) \<le> A + (t' - t)"
    using SendMessage_bucket [OF Cons.prems(1,2) le, of msg] by (simp add: A_def A1_def)
  have split: "int (succeeded (fst (send_all s frm (c # c' # cs)))) =
      (if isl (fst (SendMessage s frm msg t)) then 0 else 1) + int ?rest"
    by (simp add: c send_all_Cons succeeded_Cons)
  have "int (succeeded (fst (send_all s frm (c # c' # cs)))) * Second \<le> max 0 A + (L - t)"
  proof (cases "isl (fst (SendMessage s frm msg t))")
    case True
    with b le have "max 0 A1 \<le> max 0 A + (t' - t)" by auto
    moreover have "int (succeeded (fst (send_all s frm (c # c' # cs)))) * Second =
        int ?rest * Second"
      using True by (simp add: split)
    ultimately show ?thesis using IH by linarith
  next
    case False
    from SendMessage_success_allowed [OF this Cons.prems(2)]
    have ge: "Second \<le> A" by (simp add: Allow_iff A_def)
    from b False have "A1 + Second \<le> A + (t' - t)" by simp
    with ge le have "max 0 A1 + Second \<le> max 0 A + (t' - t)" by auto
    moreover have "int (succeeded (fst (send_all s frm (c # c' # cs)))) * Second =
        Second + int ?rest * Second"
      using False by (simp add: split algebra_simps)
    ultimately show ?thesis using IH by linarith
  qed
  then show ?case by (simp add: L_def A_def c)
qed

lemma send_all_at_most_burst:
  assumes "invariant s" "map_of (streams s) frm = Some p" "sorted (map fst calls)"
    "calls \<noteq> []" "fst (last calls) - fst (hd calls) < Second"
  shows "succeeded (fst (send_all s frm calls)) \<le> 5"
proof -
  from assms(4) obtain c cs where calls: "calls = c # cs" by (cases calls) auto
  have "client_ok (clients s ! p)" using assms(1,2) by (rule invariant_lookup)
  then have "lim_burst (RateLimiter (clients s ! p)) = 5" by (simp add: client_ok_def)
  with advance_le_burst [of "RateLimiter (clients s ! p)" "fst c"]
  have "max 0 (advance (RateLimiter (clients s ! p)) (fst c)) \<le> 5 * Second"
    by (simp add: Second_def)
  moreover have "sorted (map fst (c # cs))" using assms(3) unfolding calls .
  from send_all_count [OF assms(1,2) this]
  have "int (succeeded (fst (send_all s frm calls))) * Second
     \<le> max 0 (advance (RateLimiter (clients s ! p)) (fst c)) + (fst (last calls) - fst c)"
    unfolding calls .
  moreover have "fst (hd calls) = fst c" by (simp add: calls)
  ultimately have "int (succeeded (fst (send_all s frm calls))) * Second < 6 * Second"
    using assms(5) by linarith
  then have "int (succeeded (fst (send_all s frm calls))) < 6" by (simp add: Second_def)
  then show ?thesis by simp
qed

lemma length_send_all: "length (fst (send_all s frm calls)) = length calls"
proof (induction calls arbitrary: s)
  case Nil
  show ?case by simp
next
  case (Cons c calls)
  obtain t msg where c: "c = (t, msg)" by (cases c)
  show ?case using Cons.IH [of "snd (SendMessage s frm msg t)"] by (simp add: c send_all_Cons)
qed

lemma succeeded_append: "succeeded (xs @ ys) = succeeded xs + succeeded ys"
  by (simp add: succeeded_def)

lemma succeeded_all: "list_all (\<lambda>r. \<not> isl r) rs \<Longrightarrow> succeeded rs = length rs"
  by (simp add: succeeded_def list_all_iff)

lemma sixth_send_rate_limited:
  assumes inv: "invariant s" and look: "map_of (streams s) frm = Some p"
    and len: "length pre = 5" and sorted: "sorted (map fst (pre @ [(t, msg)]))"
    and window: "t - fst (hd pre) < Second"
    and five: "list_all (\<lambda>r. \<not> isl r) (fst (send_all s frm pre))"
    and msg: "msg \<noteq> []" "length msg \<le> 500"
  shows "fst (SendMessage (snd (send_all s frm pre)) frm msg t) = Inl ERR_RATE_LIMIT"
proof -
  let ?s5 = "snd (send_all s frm pre)"
  let ?r = "fst (SendMessage ?s5 frm msg t)"
  let ?calls = "pre @ [(t, msg)]"
  from len obtain c cs where pre: "pre = c # cs" by (cases pre) auto
  obtain t1 m1 where c: "c = (t1, m1)" by (cases c)
  have hd: "fst (hd ?calls) = fst (hd pre)" by (simp add: pre)
  have "succeeded (fst (send_all s frm ?calls)) \<le> 5"
    using send_all_at_most_burst [OF inv look sorted] window hd by simp
  moreover have "fst (send_all s frm ?calls) = fst (send_all s frm pre) @ [?r]"
    by (simp add: send_all_append send_all_Cons)
  moreover have "succeeded (fst (send_all s frm pre)) = 5"
    using succeeded_all [OF five] len by (simp add: length_send_all)
  ultimately have failed: "isl ?r" by (simp add: succeeded_append succeeded_Cons split: if_splits)
  have frm: "frm \<noteq> []" using inv look by (rule invariant_lookup)
  have streams5: "streams ?s5 = streams s" by (rule send_all_keeps(2))
  have look5: "map_of (streams ?s5) frm = Some p" using look by (simp add: streams5)
  have "\<not> isl (fst (SendMessage s frm m1 t1))"
    using five by (simp add: pre c send_all_Cons)
  then obtain r where "fst (SendMessage s frm m1 t1) = Inr r"
    by (cases "fst (SendMessage s frm m1 t1)") auto
  then have receivers: "filter (\<lambda>e. fst e \<noteq> frm) (streams ?s5) \<noteq> []"
    unfolding streams5 by (rule SendMessage_success_receivers)
  show ?thesis
  proof (cases "fst (Allow (RateLimiter (clients ?s5 ! p)) t)")
    case False
    from SendMessage_rate_limited [OF frm msg look5 False] show ?thesis by simp
  next
    case True
    from SendMessage_allowed [OF frm msg look5 True] receivers failed show ?thesis by simp
  qed
qed

text \<open>
  Claim C7. Every registered client's limiter has rate 1 per second and burst 5, as
  \<^verbatim>\<open>Join\<close> creates it (with a full bucket). Of any number of \<^verbatim>\<open>SendMessage\<close> calls
  of one sender whose first and last are less than a second apart, at most five
  succeed; after five successes a sixth call within the second fails with
  \<open>ERR_RATE_LIMIT\<close>. A call at least one second after the limiter's last grant is not
  rate limited: it succeeds when another client is registered. The check is a function
  of the limiter and the clock: it never waits.
\<close>

theorem C7_rate_limit:
  assumes "invariant s" and "map_of (streams s) frm = Some p"
  shows
    "lim_rate (RateLimiter (clients s ! p)) = 1 \<and> lim_burst (RateLimiter (clients s ! p)) = 5 \<and>
     (\<forall>uid now. uid \<noteq> [] \<and> map_of (streams s) uid = None \<longrightarrow>
        map_of (streams (snd (Join s uid now))) uid = Some (length (clients s)) \<and>
        RateLimiter (clients (snd (Join s uid now)) ! length (clients s)) = NewLimiter 1 5) \<and>
     (\<forall>calls. calls \<noteq> [] \<and> sorted (map fst calls) \<and>
        fst (last calls) - fst (hd calls) < Second \<longrightarrow>
        succeeded (fst (send_all s frm calls)) \<le> 5) \<and>
     (\<forall>pre t msg. length pre = 5 \<and> sorted (map fst (pre @ [(t, msg)])) \<and>
        t - fst (hd pre) < Second \<and> list_all (\<lambda>r. \<not> isl r) (fst (send_all s frm pre)) \<and>
        msg \<noteq> [] \<and> length msg \<le> 500 \<longrightarrow>
        fst (SendMessage (snd (send_all s frm pre)) frm msg t) = Inl ERR_RATE_LIMIT) \<and>
     (\<forall>msg now. msg \<noteq> [] \<and> length msg \<le> 500 \<and>
        lim_last (RateLimiter (clients s ! p)) + Second \<le> now \<longrightarrow>
        fst (SendMessage s frm msg now) =
          (if filter (\<lambda>e. fst e \<noteq> frm) (streams s) = [] then Inl ERR_NO_RECEIVERS
           else Inr (SendMessageResponse True ''Message broadcasted to clients'')))"
proof -
  have ok: "client_ok (clients s ! p)" using assms by (rule invariant_lookup)
  have frm: "frm \<noteq> []" using assms by (rule invariant_lookup)
  have 1: "lim_rate (RateLimiter (clients s ! p)) = 1" "lim_burst (RateLimiter (clients s ! p)) = 5"
    using ok by (simp_all add: client_ok_def)
  have 2: "map_of (streams (snd (Join s uid now))) uid = Some (length (clients s)) \<and>
        RateLimiter (clients (snd (Join s uid now)) ! length (clients s)) = NewLimiter 1 5"
    if "uid \<noteq> []" "map_of (streams s) uid = None" for uid now
    using that by (simp add: Join_success)
  have 3: "succeeded (fst (send_all s frm calls)) \<le> 5"
    if "calls \<noteq> []" "sorted (map fst calls)" "fst (last calls) - fst (hd calls) < Second"
    for calls
    using send_all_at_most_burst [OF assms that(2,1,3)] .
  have 5: "fst (SendMessage s frm msg now) =
          (if filter (\<lambda>e. fst e \<noteq> frm) (streams s) = [] then Inl ERR_NO_RECEIVERS
           else Inr (SendMessageResponse True ''Message broadcasted to clients''))"
    if "msg \<noteq> []" "length msg \<le> 500" "lim_last (RateLimiter (clients s ! p)) + Second \<le> now"
    for msg now
  proof -
    have "fst (Allow (RateLimiter (clients s ! p)) now)"
      using ok that(3) by (intro advance_refilled) (simp_all add: client_ok_def)
    from SendMessage_allowed [OF frm that(1,2) assms(2) this] show ?thesis by simp
  qed
  show ?thesis
    apply (intro conjI allI impI)
    subgoal by (rule 1)
    subgoal by (rule 1)
    subgoal by (elim conjE) (rule 2 [THEN conjunct1]; assumption)
    subgoal by (elim conjE) (rule 2 [THEN conjunct2]; assumption)
    subgoal by (elim conjE) (rule 3; assumption)
    subgoal by (elim conjE) (rule sixth_send_rate_limited [OF assms]; assumption)
    subgoal by (elim conjE) (rule 5; assumption)
    done
qed

text \<open>
  In the service with clients \<open>a\<close> and \<open>b\<close>, \<open>a\<close> sends at the times 1 to 6
  (nanoseconds): five calls succeed, the sixth is rate limited. A call one second after
  the fifth succeeds again.
\<close>

theorem C7_rate_limit_witness:
  "fst (send_all two_clients ''a''
     [(1, ''m''), (2, ''m''), (3, ''m''), (4, ''m''), (5, ''m'')]) =
     replicate 5 (Inr (SendMessageResponse True ''Message broadcasted to clients'')) \<and>
   fst (SendMessage (snd (send_all two_clients ''a''
     [(1, ''m''), (2, ''m''), (3, ''m''), (4, ''m''), (5, ''m'')])) ''a'' ''m'' 6) =
     Inl ERR_RATE_LIMIT \<and>
   succeeded (fst (send_all two_clients ''a''
     [(1, ''m''), (2, ''m''), (3, ''m''), (4, ''m''), (5, ''m''), (6, ''m'')])) \<le> 5 \<and>
   fst (SendMessage (snd (send_all two_clients ''a''
     [(1, ''m''), (2, ''m''), (3, ''m''), (4, ''m''), (5, ''m''), (6, ''m'')])) ''a'' ''m''
     (5 + Second)) = Inr (SendMessageResponse True ''Message broadcasted to clients'')"
proof -
  let ?five = "[(1, ''m''), (2, ''m''), (3, ''m''), (4, ''m''), (5, ''m'')] :: (time \<times> string) list"
  let ?six = "[(1, ''m''), (2, ''m''), (3, ''m''), (4, ''m''), (5, ''m''), (6, ''m'')] :: (time \<times> string) list"
  let ?s6 = "snd (send_all two_clients ''a'' ?six)"
  note T = C7_rate_limit [OF two_clients_invariant two_clients_lookup(1)]
  have 1: "fst (send_all two_clients ''a'' ?five) =
     replicate 5 (Inr (SendMessageResponse True ''Message broadcasted to clients''))"
    by code_simp
  have h4: "length ?five = 5 \<and> sorted (map fst (?five @ [(6, ''m'')])) \<and>
        6 - fst (hd ?five) < Second \<and>
        list_all (\<lambda>r. \<not> isl r) (fst (send_all two_clients ''a'' ?five)) \<and>
        ''m'' \<noteq> [] \<and> length ''m'' \<le> 500"
    by code_simp
  from T [THEN conjunct2, THEN conjunct2, THEN conjunct2, THEN conjunct2, THEN conjunct1,
      rule_format, OF h4]
  have 2: "fst (SendMessage (snd (send_all two_clients ''a'' ?five)) ''a'' ''m'' 6) =
     Inl ERR_RATE_LIMIT" .
  have h3: "?six \<noteq> [] \<and> sorted (map fst ?six) \<and> fst (last ?six) - fst (hd ?six) < Second"
    by code_simp
  from T [THEN conjunct2, THEN conjunct2, THEN conjunct2, THEN conjunct1, rule_format, OF h3]
  have 3: "succeeded (fst (send_all two_clients ''a'' ?six)) \<le> 5" .
  have i6: "invariant ?s6" by code_simp
  have l6: "map_of (streams ?s6) ''a'' = Some 0" by code_simp
  have h5: "''m'' \<noteq> [] \<and> length ''m'' \<le> 500 \<and>
    lim_last (RateLimiter (clients ?s6 ! 0)) + Second \<le> 5 + Second" by code_simp
  have r6: "filter (\<lambda>e. fst e \<noteq> ''a'') (streams ?s6) \<noteq> []" by code_simp
  from C7_rate_limit [OF i6 l6, THEN conjunct2, THEN conjunct2, THEN conjunct2, THEN conjunct2,
      THEN conjunct2, rule_format, OF h5] r6
  have 4: "fst (SendMessage ?s6 ''a'' ''m'' (5 + Second)) =
     Inr (SendMessageResponse True ''Message broadcasted to clients'')" by simp
  from 1 2 3 4 show ?thesis by simp
qed

section \<open>Running the fan-out\<close>

lemma set_RateLimiter_Ch [simp]: "Ch (clients (set_RateLimiter s c l) ! q) = Ch (clients s ! q)"
  by (simp add: set_RateLimiter_nth)

lemma invariant_schedule:
  "invariant s \<Longrightarrow> schedule s ks = Inr s' \<Longrightarrow> invariant s'"
proof (induction ks arbitrary: s)
  case Nil
  then show ?case by simp
next
  case (Cons k ks)
  from Cons.prems(2) obtain s1 where s1: "deliver s k = Inr s1" "schedule s1 ks = Inr s'"
    by (auto split: sum.splits)
  from Cons.prems(1) s1(1) have "invariant s1" by (rule invariant_deliver)
  from Cons.IH [OF this s1(2)] show ?case .
qed

text \<open>
  What running the \<open>k\<close>-th pending goroutine does, whenever it runs: on a closed
  mailbox it panics; on an open one with room it appends its message; on a full one it
  does nothing. In both cases it is pending no longer.
\<close>

lemma deliver_closed:
  assumes "k < length (goroutines s)" "goroutines s ! k = (p, m)"
    "ch_closed (Ch (clients s ! p))"
  shows "deliver s k = Inl SendOnClosedChannel"
  using assms by (simp add: deliver_def run_goroutine_def select_send_def)

lemma deliver_open:
  assumes "k < length (goroutines s)" "goroutines s ! k = (p, m)"
    "\<not> ch_closed (Ch (clients s ! p))"
  shows "deliver s k =
     Inr (set_Ch (s\<lparr>goroutines := take k (goroutines s) @ drop (Suc k) (goroutines s)\<rparr>) p
        (if length (ch_buf (Ch (clients s ! p))) < ch_cap (Ch (clients s ! p))
         then (Ch (clients s ! p))\<lparr>ch_buf := ch_buf (Ch (clients s ! p)) @ [m]\<rparr>
         else Ch (clients s ! p)))"
  using assms by (simp add: deliver_def run_goroutine_def select_send_def)

lemma deliver_room:
  assumes "k < length (goroutines s)" "goroutines s ! k = (p, m)"
    "\<not> ch_closed (Ch (clients s ! p))"
    "length (ch_buf (Ch (clients s ! p))) < ch_cap (Ch (clients s ! p))"
  shows "deliver s k =
     Inr (set_Ch (s\<lparr>goroutines := take k (goroutines s) @ drop (Suc k) (goroutines s)\<rparr>) p
        ((Ch (clients s ! p))\<lparr>ch_buf := ch_buf (Ch (clients s ! p)) @ [m]\<rparr>))"
  using deliver_open [OF assms(1-3)] assms(4) by simp

lemma deliver_full:
  assumes "k < length (goroutines s)" "goroutines s ! k = (p, m)"
    "\<not> ch_closed (Ch (clients s ! p))"
    "\<not> length (ch_buf (Ch (clients s ! p))) < ch_cap (Ch (clients s ! p))"
  shows "deliver s k =
     Inr (s\<lparr>goroutines := take k (goroutines s) @ drop (Suc k) (goroutines s)\<rparr>)"
proof -
  let ?s = "s\<lparr>goroutines := take k (goroutines s) @ drop (Suc k) (goroutines s)\<rparr>"
  have "set_Ch ?s p (Ch (clients ?s ! p)) = ?s" by (rule set_Ch_same)
  with deliver_open [OF assms(1-3)] assms(4) show ?thesis by simp
qed

lemma deliver_others:
  assumes "k < length (goroutines s)" "goroutines s ! k = (p, m)" "deliver s k = Inr s'"
  shows "goroutines s' = take k (goroutines s) @ drop (Suc k) (goroutines s)"
    and "streams s' = streams s"
    and "q \<noteq> p \<Longrightarrow> clients s' ! q = clients s ! q"
proof -
  have op: "\<not> ch_closed (Ch (clients s ! p))"
    using assms deliver_closed [OF assms(1,2)] by auto
  from deliver_open [OF assms(1,2) op] assms(3)
  show "goroutines s' = take k (goroutines s) @ drop (Suc k) (goroutines s)"
    "streams s' = streams s" "q \<noteq> p \<Longrightarrow> clients s' ! q = clients s ! q"
    by (auto simp: set_Ch_nth)
qed

text \<open>A goroutine stays pending until the scheduler runs it.\<close>

lemma SendMessage_goroutines:
  "\<exists>new. goroutines (snd (SendMessage s frm msg now)) = goroutines s @ new"
  by (simp add: SendMessage_def Let_def split_beta fan_out_eq split: option.splits)

lemma Join_goroutines: "goroutines (snd (Join s uid now)) = goroutines s"
  by (simp add: Join_def split: option.splits)

lemma set_remove_nth:
  assumes "k < length gs" "g \<in> set gs"
  shows "g \<in> set (take k gs @ drop (Suc k) gs) \<or> gs ! k = g"
proof -
  define xs y zs where "xs = take k gs" and "y = gs ! k" and "zs = drop (Suc k) gs"
  have "gs = xs @ y # zs" unfolding xs_def y_def zs_def using assms(1) by (rule id_take_nth_drop)
  with assms(2) have "g \<in> set xs \<or> g = y \<or> g \<in> set zs" by auto
  then show ?thesis unfolding xs_def y_def zs_def by auto
qed

lemma step_pending:
  assumes "invariant s" "step s t a = Inr s'" "g \<in> set (goroutines s)"
  shows "g \<in> set (goroutines s') \<or>
     (\<exists>k. a = RunGoroutine k \<and> k < length (goroutines s) \<and> goroutines s ! k = g)"
proof (cases a)
  case (DoJoin uid)
  with assms(2) have "s' = snd (Join s uid t)" by simp
  with assms(3) show ?thesis by (simp add: Join_goroutines)
next
  case (DoSendMessage frm msg)
  obtain new where "goroutines (snd (SendMessage s frm msg t)) = goroutines s @ new"
    using SendMessage_goroutines by blast
  moreover from DoSendMessage assms(2) have "s' = snd (SendMessage s frm msg t)" by simp
  ultimately show ?thesis using assms(3) by simp
next
  case (DoLeave uid)
  with assms obtain r where "Leave s uid = Inr (r, s')" by (auto split: sum.splits)
  from Leave_frame(6) [OF this] assms(3) show ?thesis by simp
next
  case (RunGoroutine k)
  with assms have d: "deliver s k = Inr s'" by simp
  show ?thesis
  proof (cases "k < length (goroutines s)")
    case False
    with d assms(3) show ?thesis by (simp add: deliver_def)
  next
    case True
    obtain p m where pm: "goroutines s ! k = (p, m)" by (cases "goroutines s ! k")
    from deliver_others(1) [OF True pm d]
    have gs: "goroutines s' = take k (goroutines s) @ drop (Suc k) (goroutines s)" .
    from set_remove_nth [OF True assms(3)] gs True RunGoroutine show ?thesis by simp
  qed
next
  case CleanupTick
  with assms(2) have "cleanup s t = Inr s'" by simp
  with cleanup_props [OF assms(1), of t] have "goroutines s' = goroutines s" by auto
  with assms(3) show ?thesis by simp
qed


lemma distinct_remove_nth:
  assumes "k < length ps" "distinct ps"
  shows "distinct (take k ps @ drop (Suc k) ps)"
    and "set (take k ps @ drop (Suc k) ps) = set ps - {ps ! k}"
proof -
  define xs y zs where "xs = take k ps" and "y = ps ! k" and "zs = drop (Suc k) ps"
  have ps: "ps = xs @ y # zs" unfolding xs_def y_def zs_def using assms(1) by (rule id_take_nth_drop)
  with assms(2) have "distinct (xs @ zs) \<and> set (xs @ zs) = set ps - {y}" by auto
  then show "distinct (take k ps @ drop (Suc k) ps)"
    "set (take k ps @ drop (Suc k) ps) = set ps - {ps ! k}"
    unfolding xs_def y_def zs_def by simp_all
qed

text \<open>
  One message on its way to distinct open mailboxes, and a schedule in any order: each
  mailbox whose goroutine has run got the message at the end of its queue if it had
  room and is as before if it was full; nothing else changes, and no goroutine panics.
\<close>

lemma schedule_same_message:
  assumes "goroutines s = map (\<lambda>q. (q, m)) ps" and "distinct ps"
    and "\<forall>q \<in> set ps. q < length (clients s) \<and> \<not> ch_closed (Ch (clients s ! q))"
  shows "\<exists>s' ps'. schedule s ks = Inr s' \<and>
     streams s' = streams s \<and> length (clients s') = length (clients s) \<and>
     goroutines s' = map (\<lambda>q. (q, m)) ps' \<and> set ps' \<subseteq> set ps \<and>
     (\<forall>q. clients s' ! q =
        (if q \<in> set ps \<and> q \<notin> set ps' \<and>
            length (ch_buf (Ch (clients s ! q))) < ch_cap (Ch (clients s ! q))
         then (clients s ! q)\<lparr>Ch := (Ch (clients s ! q))\<lparr>ch_buf := ch_buf (Ch (clients s ! q)) @ [m]\<rparr>\<rparr>
         else clients s ! q))"
  using assms
proof (induction ks arbitrary: s ps)
  case Nil
  then show ?case by auto
next
  case (Cons k ks)
  show ?case
  proof (cases "k < length ps")
    case False
    then have d: "deliver s k = Inr s" using Cons.prems(1) by (simp add: deliver_def)
    from Cons.IH [OF Cons.prems] d show ?thesis by simp
  next
    case True
    define p where "p = ps ! k"
    define ps1 where "ps1 = take k ps @ drop (Suc k) ps"
    let ?old = "Ch (clients s ! p)"
    define ch where
      "ch = (if length (ch_buf ?old) < ch_cap ?old then ?old\<lparr>ch_buf := ch_buf ?old @ [m]\<rparr> else ?old)"
    define s1 where "s1 = set_Ch (s\<lparr>goroutines := map (\<lambda>q. (q, m)) ps1\<rparr>) p ch"
    have mem: "p \<in> set ps" using True by (simp add: p_def)
    with Cons.prems(3) have p: "p < length (clients s)" "\<not> ch_closed ?old" by simp_all
    have k: "k < length (goroutines s)" "goroutines s ! k = (p, m)"
      using True Cons.prems(1) by (simp_all add: p_def)
    have gs1: "take k (goroutines s) @ drop (Suc k) (goroutines s) = map (\<lambda>q. (q, m)) ps1"
      using Cons.prems(1) by (simp add: ps1_def take_map drop_map)
    have d: "deliver s k = Inr s1"
      using deliver_open [OF k p(2)] by (simp add: s1_def ch_def gs1)
    from distinct_remove_nth [OF True Cons.prems(2)]
    have dis: "distinct ps1" and set1: "set ps1 = set ps - {p}" by (simp_all add: ps1_def p_def)
    have other: "clients s1 ! q = clients s ! q" if "q \<noteq> p" for q
      using that by (simp add: s1_def set_Ch_nth)
    have own: "clients s1 ! p = (clients s ! p)\<lparr>Ch := ch\<rparr>"
      using p(1) by (simp add: s1_def set_Ch_nth)
    have frame: "streams s1 = streams s" "goroutines s1 = map (\<lambda>q. (q, m)) ps1"
      "length (clients s1) = length (clients s)" by (simp_all add: s1_def)
    have pre: "\<forall>q \<in> set ps1. q < length (clients s1) \<and> \<not> ch_closed (Ch (clients s1 ! q))"
    proof
      fix q assume q: "q \<in> set ps1"
      with set1 have "q \<noteq> p" "q \<in> set ps" by auto
      with Cons.prems(3) show "q < length (clients s1) \<and> \<not> ch_closed (Ch (clients s1 ! q))"
        by (simp add: other frame)
    qed
    from Cons.IH [OF frame(2) dis pre] obtain s' ps' where s':
      "schedule s1 ks = Inr s'" "streams s' = streams s1"
      "length (clients s') = length (clients s1)"
      "goroutines s' = map (\<lambda>q. (q, m)) ps'" "set ps' \<subseteq> set ps1"
      "\<forall>q. clients s' ! q =
        (if q \<in> set ps1 \<and> q \<notin> set ps' \<and>
            length (ch_buf (Ch (clients s1 ! q))) < ch_cap (Ch (clients s1 ! q))
         then (clients s1 ! q)\<lparr>Ch := (Ch (clients s1 ! q))\<lparr>ch_buf := ch_buf (Ch (clients s1 ! q)) @ [m]\<rparr>\<rparr>
         else clients s1 ! q)"
      by blast
    have notin: "p \<notin> set ps1" "p \<notin> set ps'" using set1 s'(5) by auto
    have c: "clients s' ! q =
        (if q \<in> set ps \<and> q \<notin> set ps' \<and>
            length (ch_buf (Ch (clients s ! q))) < ch_cap (Ch (clients s ! q))
         then (clients s ! q)\<lparr>Ch := (Ch (clients s ! q))\<lparr>ch_buf := ch_buf (Ch (clients s ! q)) @ [m]\<rparr>\<rparr>
         else clients s ! q)" for q
    proof (cases "q = p")
      case True
      with s'(6) notin have "clients s' ! q = clients s1 ! p" by simp
      with True own mem notin show ?thesis by (simp add: ch_def)
    next
      case False
      then have "q \<in> set ps1 \<longleftrightarrow> q \<in> set ps" using set1 by auto
      with s'(6) False show ?thesis by (simp add: other)
    qed
    have sub: "set ps' \<subseteq> set ps" using s'(5) set1 by auto
    have sch: "schedule s (k # ks) = Inr s'" using d s'(1) by simp
    show ?thesis
      apply (rule exI [of _ s'])
      apply (rule exI [of _ ps'])
      using sch s'(2,3,4) sub c frame by simp
  qed
qed

text \<open>Running the first pending goroutine again and again runs them all.\<close>

lemma schedule_front:
  assumes "goroutines s = map (\<lambda>q. (q, m)) ps"
    and "\<forall>q \<in> set ps. \<not> ch_closed (Ch (clients s ! q))"
  shows "\<exists>s'. schedule s (replicate (length ps) 0) = Inr s' \<and> goroutines s' = []"
  using assms
proof (induction ps arbitrary: s)
  case Nil
  then show ?case by simp
next
  case (Cons p ps)
  let ?old = "Ch (clients s ! p)"
  define ch where
    "ch = (if length (ch_buf ?old) < ch_cap ?old then ?old\<lparr>ch_buf := ch_buf ?old @ [m]\<rparr> else ?old)"
  define s1 where "s1 = set_Ch (s\<lparr>goroutines := map (\<lambda>q. (q, m)) ps\<rparr>) p ch"
  have k: "0 < length (goroutines s)" "goroutines s ! 0 = (p, m)"
    using Cons.prems(1) by simp_all
  have op: "\<not> ch_closed ?old" using Cons.prems(2) by simp
  have d: "deliver s 0 = Inr s1"
    using deliver_open [OF k op] Cons.prems(1) by (simp add: s1_def ch_def)
  have g1: "goroutines s1 = map (\<lambda>q. (q, m)) ps" by (simp add: s1_def)
  have cl: "ch_closed (Ch (clients s1 ! q)) = ch_closed (Ch (clients s ! q))" for q
    by (cases "p < length (clients s)")
       (simp_all add: s1_def set_Ch_def ch_def nth_list_update list_update_beyond)
  have pre: "\<forall>q \<in> set ps. \<not> ch_closed (Ch (clients s1 ! q))"
    using Cons.prems(2) by (simp add: cl)
  from Cons.IH [OF g1 pre] obtain s' where
    "schedule s1 (replicate (length ps) 0) = Inr s'" "goroutines s' = []" by blast
  with d show ?case by simp
qed

lemma receivers_distinct:
  assumes "invariant s"
  shows "distinct (map snd (filter (\<lambda>e. fst e \<noteq> frm) (streams s)))"
  using assms by (simp add: invariant_def distinct_map_filter)

lemma receiver_iff:
  assumes "invariant s"
  shows "q \<in> set (map snd (filter (\<lambda>e. fst e \<noteq> frm) (streams s))) \<longleftrightarrow>
     (\<exists>u. u \<noteq> frm \<and> map_of (streams s) u = Some q)"
proof -
  have d: "distinct (map fst (streams s))" using assms by (simp add: invariant_def)
  show ?thesis
  proof
    assume "q \<in> set (map snd (filter (\<lambda>e. fst e \<noteq> frm) (streams s)))"
    then obtain u where "(u, q) \<in> set (streams s)" "u \<noteq> frm" by auto
    with d show "\<exists>u. u \<noteq> frm \<and> map_of (streams s) u = Some q" by auto
  next
    assume "\<exists>u. u \<noteq> frm \<and> map_of (streams s) u = Some q"
    then obtain u where "u \<noteq> frm" "(u, q) \<in> set (streams s)" by (auto dest: map_of_SomeD)
    then show "q \<in> set (map snd (filter (\<lambda>e. fst e \<noteq> frm) (streams s)))" by force
  qed
qed

text \<open>
  A broadcast admitted by the limiter, starting from a state without pending goroutines,
  and any schedule of its goroutines: none panics, the mailbox of the sender is left
  alone, and once all have run every other registered client with room has the message
  at the end of its mailbox, while a full mailbox is as before.
\<close>

lemma broadcast:
  assumes inv: "invariant s" and quiet: "goroutines s = []"
    and look: "map_of (streams s) frm = Some p"
    and msg: "msg \<noteq> []" "length msg \<le> 500"
    and allowed: "fst (Allow (RateLimiter (clients s ! p)) now)"
  shows "\<exists>s2. schedule (snd (SendMessage s frm msg now)) ks = Inr s2 \<and> invariant s2 \<and>
     streams s2 = streams s \<and> length (clients s2) = length (clients s) \<and>
     Ch (clients s2 ! p) = Ch (clients s ! p) \<and>
     (goroutines s2 = [] \<longrightarrow>
        (\<forall>u q. u \<noteq> frm \<and> map_of (streams s) u = Some q \<longrightarrow>
           clients s2 ! q =
             (if length (ch_buf (Ch (clients s ! q))) < 10
              then (clients s ! q)\<lparr>Ch := (Ch (clients s ! q))
                     \<lparr>ch_buf := ch_buf (Ch (clients s ! q)) @ [frm @ '': '' @ msg]\<rparr>\<rparr>
              else clients s ! q)))"
    and "\<exists>s2. schedule (snd (SendMessage s frm msg now))
             (replicate (length (goroutines (snd (SendMessage s frm msg now)))) 0) = Inr s2 \<and>
           goroutines s2 = []"
proof -
  define m where "m = frm @ '': '' @ msg"
  let ?ps = "map snd (filter (\<lambda>e. fst e \<noteq> frm) (streams s))"
  let ?lim = "snd (Allow (RateLimiter (clients s ! p)) now)"
  let ?s0 = "set_RateLimiter s p ?lim"
  let ?s1 = "snd (SendMessage s frm msg now)"
  have frm: "frm \<noteq> []" using inv look by (rule invariant_lookup)
  have p: "p < length (clients s)" using inv look by (rule invariant_lookup)
  have s1: "?s1 = ?s0\<lparr>goroutines := map (\<lambda>q. (q, m)) ?ps\<rparr>"
    using SendMessage_allowed [OF frm msg look allowed, folded m_def] quiet
    by (simp add: comp_def)
  have g1: "goroutines ?s1 = map (\<lambda>q. (q, m)) ?ps" by (simp add: s1)
  have i1: "invariant ?s1" using inv by (rule invariant_SendMessage)
  have chan: "Ch (clients ?s1 ! q) = Ch (clients s ! q)" for q
    by (rule SendMessage_frame(4))
  have len1: "length (clients ?s1) = length (clients s)" by (rule SendMessage_frame(2))
  have st1: "streams ?s1 = streams s" by (rule SendMessage_frame(1))
  have pre: "\<forall>q \<in> set ?ps. q < length (clients ?s1) \<and> \<not> ch_closed (Ch (clients ?s1 ! q))"
  proof
    fix q assume "q \<in> set ?ps"
    then obtain u where "map_of (streams s) u = Some q" using receiver_iff [OF inv] by blast
    from invariant_lookup(2,4) [OF inv this]
    show "q < length (clients ?s1) \<and> \<not> ch_closed (Ch (clients ?s1 ! q))"
      by (simp add: chan len1)
  qed
  from schedule_same_message [OF g1 receivers_distinct [OF inv] pre, of ks]
  obtain s2 ps' where s2:
    "schedule ?s1 ks = Inr s2" "streams s2 = streams ?s1"
    "length (clients s2) = length (clients ?s1)"
    "goroutines s2 = map (\<lambda>q. (q, m)) ps'" "set ps' \<subseteq> set ?ps"
    "\<forall>q. clients s2 ! q =
        (if q \<in> set ?ps \<and> q \<notin> set ps' \<and>
            length (ch_buf (Ch (clients ?s1 ! q))) < ch_cap (Ch (clients ?s1 ! q))
         then (clients ?s1 ! q)\<lparr>Ch := (Ch (clients ?s1 ! q))\<lparr>ch_buf := ch_buf (Ch (clients ?s1 ! q)) @ [m]\<rparr>\<rparr>
         else clients ?s1 ! q)"
    by blast
  have i2: "invariant s2" using i1 s2(1) by (rule invariant_schedule)
  have sender: "p \<notin> set ?ps"
  proof
    assume "p \<in> set ?ps"
    then obtain u where u: "u \<noteq> frm" "map_of (streams s) u = Some p"
      using receiver_iff [OF inv] by blast
    from invariant_pointers_differ [OF inv u(2) look u(1)] show False by simp
  qed
  have own: "Ch (clients s2 ! p) = Ch (clients s ! p)"
    using s2(6) sender by (simp add: chan)
  have others: "clients s2 ! q =
          (if length (ch_buf (Ch (clients s ! q))) < 10
           then (clients s ! q)\<lparr>Ch := (Ch (clients s ! q))
                  \<lparr>ch_buf := ch_buf (Ch (clients s ! q)) @ [m]\<rparr>\<rparr>
           else clients s ! q)"
    if "goroutines s2 = []" "u \<noteq> frm" "map_of (streams s) u = Some q" for u q
  proof -
    have mem: "q \<in> set ?ps" using receiver_iff [OF inv] that(2,3) by blast
    have none: "q \<notin> set ps'" using that(1) s2(4) by simp
    have "q \<noteq> p" using invariant_pointers_differ [OF inv that(3) look that(2)] .
    then have same: "clients ?s1 ! q = clients s ! q"
      by (simp add: s1 set_RateLimiter_nth)
    have "client_ok (clients s ! q)" using inv that(3) by (rule invariant_lookup)
    then have "ch_cap (Ch (clients s ! q)) = 10" by (simp add: client_ok_def)
    with s2(6) mem none same show ?thesis by simp
  qed
  show "\<exists>s2. schedule ?s1 ks = Inr s2 \<and> invariant s2 \<and>
     streams s2 = streams s \<and> length (clients s2) = length (clients s) \<and>
     Ch (clients s2 ! p) = Ch (clients s ! p) \<and>
     (goroutines s2 = [] \<longrightarrow>
        (\<forall>u q. u \<noteq> frm \<and> map_of (streams s) u = Some q \<longrightarrow>
           clients s2 ! q =
             (if length (ch_buf (Ch (clients s ! q))) < 10
              then (clients s ! q)\<lparr>Ch := (Ch (clients s ! q))
                     \<lparr>ch_buf := ch_buf (Ch (clients s ! q)) @ [frm @ '': '' @ msg]\<rparr>\<rparr>
              else clients s ! q)))"
    unfolding m_def [symmetric]
    apply (rule exI [of _ s2])
    apply (intro conjI allI impI)
    subgoal by (rule s2(1))
    subgoal by (rule i2)
    subgoal by (simp add: s2(2) st1)
    subgoal by (simp add: s2(3) len1)
    subgoal by (rule own)
    subgoal by (elim conjE) (rule others; assumption)
    done
  have op: "\<forall>q \<in> set ?ps. \<not> ch_closed (Ch (clients ?s1 ! q))" using pre by simp
  from schedule_front [OF g1 op]
  show "\<exists>s2. schedule ?s1 (replicate (length (goroutines ?s1)) 0) = Inr s2 \<and> goroutines s2 = []"
    by (simp add: g1)
qed

section \<open>Reading a mailbox\<close>

lemma SendMessage_success_valid:
  assumes "fst (SendMessage s frm msg now) = Inr r"
  shows "frm \<noteq> []" "msg \<noteq> []" "length msg \<le> 500"
proof -
  have "\<not> (frm = [] \<or> msg = [] \<or> 500 < length msg)"
  proof
    assume "frm = [] \<or> msg = [] \<or> 500 < length msg"
    then have "isl (fst (SendMessage s frm msg now))" by (auto simp: SendMessage_def)
    with assms show False by simp
  qed
  then show "frm \<noteq> []" "msg \<noteq> []" "length msg \<le> 500" by auto
qed

lemma GetMessage_nothing:
  assumes "invariant s" "map_of (streams s) uid = Some p" "ch_buf (Ch (clients s ! p)) = []"
  shows "GetMessage s uid [] now [] = Inr (Inl ERR_NO_MESSAGES, set_LastSeen s p now)"
proof -
  have "\<not> ch_closed (Ch (clients s ! p))" using assms(1,2) by (rule invariant_lookup)
  with assms(3) have "idle (set_LastSeen s p now) p" by (simp add: idle_def set_LastSeen_nth)
  then show ?thesis by (simp add: GetMessage_registered [OF assms(1,2)] await_idle_Nil)
qed

lemma GetMessage_pop:
  assumes "invariant s" "map_of (streams s) uid = Some p" "ch_buf (Ch (clients s ! p)) = m # ms"
  shows "GetMessage s uid [] now env =
     Inr (Inr (MessageResponse m),
          set_Ch (set_LastSeen s p now) p ((Ch (clients s ! p))\<lparr>ch_buf := ms\<rparr>))"
proof -
  have "ch_buf (Ch (clients (set_LastSeen s p now) ! p)) = m # ms"
    using assms(3) by (simp add: set_LastSeen_nth)
  from await_message [OF this, of "now + 10 * Second" env] show ?thesis
    by (simp add: GetMessage_registered [OF assms(1,2)] set_LastSeen_nth)
qed

lemma receive_all_queue:
  "invariant s \<Longrightarrow> map_of (streams s) uid = Some p \<Longrightarrow>
   ch_buf (Ch (clients s ! p)) = q @ rest \<Longrightarrow> length ts = length q \<Longrightarrow>
     fst (receive_all s uid ts) = map (\<lambda>m. Inr (MessageResponse m)) q \<and>
     invariant (snd (receive_all s uid ts)) \<and>
     map_of (streams (snd (receive_all s uid ts))) uid = Some p \<and>
     ch_buf (Ch (clients (snd (receive_all s uid ts)) ! p)) = rest"
proof (induction q arbitrary: s ts)
  case Nil
  then show ?case by simp
next
  case (Cons m q)
  from Cons.prems(4) obtain t ts' where ts: "ts = t # ts'" "length ts' = length q"
    by (cases ts) auto
  let ?s1 = "set_Ch (set_LastSeen s p t) p ((Ch (clients s ! p))\<lparr>ch_buf := q @ rest\<rparr>)"
  have buf: "ch_buf (Ch (clients s ! p)) = m # (q @ rest)" using Cons.prems(3) by simp
  have G: "GetMessage s uid [] t [] = Inr (Inr (MessageResponse m), ?s1)"
    using Cons.prems(1,2) buf by (rule GetMessage_pop)
  have p: "p < length (clients s)" using Cons.prems(1,2) by (rule invariant_lookup)
  have i1: "invariant ?s1" using Cons.prems(1) G by (rule invariant_GetMessage)
  have l1: "map_of (streams ?s1) uid = Some p" using Cons.prems(2) by simp
  have b1: "ch_buf (Ch (clients ?s1 ! p)) = q @ rest" using p by (simp add: set_Ch_nth)
  from Cons.IH [OF i1 l1 b1 ts(2)] show ?case by (simp add: ts G split_beta)
qed

lemma receive_all_then_nothing:
  assumes "invariant s" "map_of (streams s) uid = Some p" "length ts = Suc (length (ch_buf (Ch (clients s ! p))))"
  shows "fst (receive_all s uid ts) =
     map (\<lambda>m. Inr (MessageResponse m)) (ch_buf (Ch (clients s ! p))) @ [Inl ERR_NO_MESSAGES]"
  using assms
proof (induction ts arbitrary: s)
  case Nil
  then show ?case by simp
next
  case (Cons t ts)
  show ?case
  proof (cases "ch_buf (Ch (clients s ! p))")
    case Nil
    with Cons.prems(3) have "ts = []" by simp
    with Nil GetMessage_nothing [OF Cons.prems(1,2) Nil, of t] show ?thesis by simp
  next
    case (Cons m ms)
    let ?s1 = "set_Ch (set_LastSeen s p t) p ((Ch (clients s ! p))\<lparr>ch_buf := ms\<rparr>)"
    have G: "GetMessage s uid [] t [] = Inr (Inr (MessageResponse m), ?s1)"
      using Cons.prems(1,2) Cons by (rule GetMessage_pop)
    have p: "p < length (clients s)" using Cons.prems(1,2) by (rule invariant_lookup)
    have i1: "invariant ?s1" using Cons.prems(1) G by (rule invariant_GetMessage)
    have l1: "map_of (streams ?s1) uid = Some p" using Cons.prems(2) by simp
    have b1: "ch_buf (Ch (clients ?s1 ! p)) = ms" using p by (simp add: set_Ch_nth)
    have len: "length ts = Suc (length (ch_buf (Ch (clients ?s1 ! p))))"
      using Cons.prems(3) Cons b1 by simp
    from Cons.IH [OF i1 l1 len] show ?thesis by (simp add: G b1 Cons split_beta)
  qed
qed


section \<open>Broadcast and delivery\<close>

text \<open>
  Claim C1. \<open>a\<close> and \<open>b\<close> are distinct registered clients and \<^verbatim>\<open>SendMessage(a, t)\<close>
  succeeds, in any well-formed state, whatever goroutines of earlier broadcasts are still
  pending. The call adds to the pending goroutines one goroutine per other registered
  client, each carrying \<open>a: t\<close>: one of them for \<open>b\<close>, none for \<open>a\<close>; the call itself
  touches no mailbox. Whenever the goroutine for \<open>b\<close> runs, whatever happened since, it
  appends exactly \<open>a: t\<close> to the mailbox of \<open>b\<close> if this is open and has room at that
  moment, and changes nothing else; until it runs it stays pending, whatever other
  actions take place. Successive \<^verbatim>\<open>GetMessage(b)\<close> calls return the mailbox in order,
  \<open>a: t\<close> after what was queued before it. When no earlier fan-out is pending at the
  call, then under every schedule no goroutine panics and the mailbox of \<open>a\<close> is as
  before; once all goroutines have run, the mailbox of \<open>b\<close>, if it had room, holds
  \<open>a: t\<close> behind what it held before, and a \<^verbatim>\<open>GetMessage(a)\<close> on an empty mailbox
  times out; and running the first pending goroutine again and again is a schedule that
  runs them all.
\<close>

theorem C1_broadcast_delivers:
  assumes "invariant s"
    and "map_of (streams s) a = Some pa" and "map_of (streams s) b = Some pb" and "a \<noteq> b"
    and "fst (SendMessage s a t now) = Inr r"
  shows
    "goroutines (snd (SendMessage s a t now)) =
       goroutines s @
       map (\<lambda>e. (snd e, a @ '': '' @ t)) (filter (\<lambda>e. fst e \<noteq> a) (streams s)) \<and>
     (pb, a @ '': '' @ t) \<in>
       set (map (\<lambda>e. (snd e, a @ '': '' @ t)) (filter (\<lambda>e. fst e \<noteq> a) (streams s))) \<and>
     distinct (map snd (filter (\<lambda>e. fst e \<noteq> a) (streams s))) \<and>
     pa \<notin> set (map snd (filter (\<lambda>e. fst e \<noteq> a) (streams s))) \<and>
     streams (snd (SendMessage s a t now)) = streams s \<and>
     (\<forall>q. Ch (clients (snd (SendMessage s a t now)) ! q) = Ch (clients s ! q)) \<and>
     (\<forall>s' k. k < length (goroutines s') \<and> goroutines s' ! k = (pb, a @ '': '' @ t) \<and>
        \<not> ch_closed (Ch (clients s' ! pb)) \<and>
        length (ch_buf (Ch (clients s' ! pb))) < ch_cap (Ch (clients s' ! pb)) \<longrightarrow>
        deliver s' k =
          Inr (set_Ch
                 (s'\<lparr>goroutines := take k (goroutines s') @ drop (Suc k) (goroutines s')\<rparr>) pb
                 ((Ch (clients s' ! pb))
                    \<lparr>ch_buf := ch_buf (Ch (clients s' ! pb)) @ [a @ '': '' @ t]\<rparr>))) \<and>
     (\<forall>s' t' act s''. invariant s' \<and> (pb, a @ '': '' @ t) \<in> set (goroutines s') \<and>
        step s' t' act = Inr s'' \<longrightarrow>
        (pb, a @ '': '' @ t) \<in> set (goroutines s'') \<or>
        (\<exists>k. act = RunGoroutine k \<and> k < length (goroutines s') \<and>
           goroutines s' ! k = (pb, a @ '': '' @ t))) \<and>
     (\<forall>s' q rest ts. invariant s' \<and> map_of (streams s') b = Some pb \<and>
        ch_buf (Ch (clients s' ! pb)) = q @ (a @ '': '' @ t) # rest \<and>
        length ts = Suc (length q) \<longrightarrow>
        fst (receive_all s' b ts) = map (\<lambda>m. Inr (MessageResponse m)) (q @ [a @ '': '' @ t])) \<and>
     (goroutines s = [] \<longrightarrow>
        (\<forall>ks. \<exists>s2. schedule (snd (SendMessage s a t now)) ks = Inr s2 \<and>
           Ch (clients s2 ! pa) = Ch (clients s ! pa) \<and>
           (goroutines s2 = [] \<longrightarrow>
              Ch (clients s2 ! pb) =
                (if length (ch_buf (Ch (clients s ! pb))) < 10
                 then (Ch (clients s ! pb))
                        \<lparr>ch_buf := ch_buf (Ch (clients s ! pb)) @ [a @ '': '' @ t]\<rparr>
                 else Ch (clients s ! pb)) \<and>
              (\<forall>ts. length (ch_buf (Ch (clients s ! pb))) < 10 \<and>
                 length ts = Suc (length (ch_buf (Ch (clients s ! pb)))) \<longrightarrow>
                 fst (receive_all s2 b ts) =
                   map (\<lambda>m. Inr (MessageResponse m))
                     (ch_buf (Ch (clients s ! pb)) @ [a @ '': '' @ t])) \<and>
              (\<forall>now'. ch_buf (Ch (clients s ! pa)) = [] \<longrightarrow>
                 GetMessage s2 a [] now' [] =
                   Inr (Inl ERR_NO_MESSAGES, set_LastSeen s2 pa now')))) \<and>
        (\<exists>s2. schedule (snd (SendMessage s a t now))
                 (replicate (length (goroutines (snd (SendMessage s a t now)))) 0) = Inr s2 \<and>
           goroutines s2 = []))"
proof -
  define m where "m = a @ '': '' @ t"
  let ?es = "filter (\<lambda>e. fst e \<noteq> a) (streams s)"
  let ?s1 = "snd (SendMessage s a t now)"
  let ?old = "ch_buf (Ch (clients s ! pb))"
  note valid = SendMessage_success_valid [OF assms(5)]
  have "\<not> isl (fst (SendMessage s a t now))" using assms(5) by simp
  then have allowed: "fst (Allow (RateLimiter (clients s ! pa)) now)"
    using assms(2) by (rule SendMessage_success_allowed)
  have 1: "goroutines ?s1 = goroutines s @ map (\<lambda>e. (snd e, m)) ?es"
    using SendMessage_allowed [OF valid assms(2) allowed, folded m_def] by simp
  have "(b, pb) \<in> set (streams s)" using assms(3) by (rule map_of_SomeD)
  with assms(4) have "(b, pb) \<in> set ?es" by simp
  then have 2: "(pb, m) \<in> set (map (\<lambda>e. (snd e, m)) ?es)" by force
  have 3: "distinct (map snd ?es)" using assms(1) by (rule receivers_distinct)
  have 4: "pa \<notin> set (map snd ?es)"
  proof
    assume "pa \<in> set (map snd ?es)"
    then obtain u where u: "u \<noteq> a" "map_of (streams s) u = Some pa"
      using receiver_iff [OF assms(1)] by blast
    from invariant_pointers_differ [OF assms(1) u(2) assms(2) u(1)] show False by simp
  qed
  have 5: "streams ?s1 = streams s" by (rule SendMessage_frame(1))
  have 6: "Ch (clients ?s1 ! q) = Ch (clients s ! q)" for q by (rule SendMessage_frame(4))
  have 7: "deliver s' k =
          Inr (set_Ch
                 (s'\<lparr>goroutines := take k (goroutines s') @ drop (Suc k) (goroutines s')\<rparr>) pb
                 ((Ch (clients s' ! pb))\<lparr>ch_buf := ch_buf (Ch (clients s' ! pb)) @ [m]\<rparr>))"
    if "k < length (goroutines s')" "goroutines s' ! k = (pb, m)"
      "\<not> ch_closed (Ch (clients s' ! pb))"
      "length (ch_buf (Ch (clients s' ! pb))) < ch_cap (Ch (clients s' ! pb))" for s' k
    using that by (rule deliver_room)
  have 8: "(pb, m) \<in> set (goroutines s'') \<or>
        (\<exists>k. act = RunGoroutine k \<and> k < length (goroutines s') \<and> goroutines s' ! k = (pb, m))"
    if "invariant s'" "(pb, m) \<in> set (goroutines s')" "step s' t' act = Inr s''"
    for s' t' act s''
    using that(1,3,2) by (rule step_pending)
  have 9: "fst (receive_all s' b ts) = map (\<lambda>m. Inr (MessageResponse m)) (q @ [m])"
    if "invariant s'" "map_of (streams s') b = Some pb"
      "ch_buf (Ch (clients s' ! pb)) = q @ m # rest" "length ts = Suc (length q)"
    for s' q rest ts
  proof -
    from that(3,4) have "ch_buf (Ch (clients s' ! pb)) = (q @ [m]) @ rest"
      "length ts = length (q @ [m])" by simp_all
    from receive_all_queue [OF that(1,2) this] show ?thesis by simp
  qed
  have 10: "\<exists>s2. schedule ?s1 ks = Inr s2 \<and>
           Ch (clients s2 ! pa) = Ch (clients s ! pa) \<and>
           (goroutines s2 = [] \<longrightarrow>
              Ch (clients s2 ! pb) =
                (if length ?old < 10 then (Ch (clients s ! pb))\<lparr>ch_buf := ?old @ [m]\<rparr>
                 else Ch (clients s ! pb)) \<and>
              (\<forall>ts. length ?old < 10 \<and> length ts = Suc (length ?old) \<longrightarrow>
                 fst (receive_all s2 b ts) = map (\<lambda>m. Inr (MessageResponse m)) (?old @ [m])) \<and>
              (\<forall>now'. ch_buf (Ch (clients s ! pa)) = [] \<longrightarrow>
                 GetMessage s2 a [] now' [] =
                   Inr (Inl ERR_NO_MESSAGES, set_LastSeen s2 pa now')))"
    if quiet: "goroutines s = []" for ks
  proof -
    from broadcast(1) [OF assms(1) quiet assms(2) valid(2,3) allowed, folded m_def, of ks]
    obtain s2 where B: "schedule ?s1 ks = Inr s2 \<and> invariant s2 \<and>
       streams s2 = streams s \<and> length (clients s2) = length (clients s) \<and>
       Ch (clients s2 ! pa) = Ch (clients s ! pa) \<and>
       (goroutines s2 = [] \<longrightarrow>
          (\<forall>u q. u \<noteq> a \<and> map_of (streams s) u = Some q \<longrightarrow>
             clients s2 ! q =
               (if length (ch_buf (Ch (clients s ! q))) < 10
                then (clients s ! q)\<lparr>Ch := (Ch (clients s ! q))
                       \<lparr>ch_buf := ch_buf (Ch (clients s ! q)) @ [m]\<rparr>\<rparr>
                else clients s ! q)))" ..
    note d = B [THEN conjunct1]
    note i2 = B [THEN conjunct2, THEN conjunct1]
    note st = B [THEN conjunct2, THEN conjunct2, THEN conjunct1]
    note own = B [THEN conjunct2, THEN conjunct2, THEN conjunct2, THEN conjunct2, THEN conjunct1]
    note others = B [THEN conjunct2, THEN conjunct2, THEN conjunct2, THEN conjunct2,
        THEN conjunct2, rule_format]
    have la: "map_of (streams s2) a = Some pa" and lb: "map_of (streams s2) b = Some pb"
      using assms(2,3) by (simp_all add: st)
    have c2: "Ch (clients s2 ! pb) =
         (if length ?old < 10 then (Ch (clients s ! pb))\<lparr>ch_buf := ?old @ [m]\<rparr>
          else Ch (clients s ! pb))" if fin: "goroutines s2 = []"
    proof -
      have "clients s2 ! pb =
            (if length ?old < 10
             then (clients s ! pb)\<lparr>Ch := (Ch (clients s ! pb))\<lparr>ch_buf := ?old @ [m]\<rparr>\<rparr>
             else clients s ! pb)"
        using assms(3,4) by (intro others [OF fin, of b pb]) simp
      then show ?thesis by simp
    qed
    have c3: "fst (receive_all s2 b ts) = map (\<lambda>m. Inr (MessageResponse m)) (?old @ [m])"
      if "goroutines s2 = []" "length ?old < 10 \<and> length ts = Suc (length ?old)" for ts
    proof -
      from that have "ch_buf (Ch (clients s2 ! pb)) = (?old @ [m]) @ []"
        and "length ts = length (?old @ [m])" by (simp_all add: c2)
      from receive_all_queue [OF i2 lb this] show ?thesis by simp
    qed
    have c4: "GetMessage s2 a [] now' [] = Inr (Inl ERR_NO_MESSAGES, set_LastSeen s2 pa now')"
      if "ch_buf (Ch (clients s ! pa)) = []" for now'
      using GetMessage_nothing [OF i2 la] that by (simp add: own)
    show ?thesis
      apply (rule exI [of _ s2])
      apply (intro conjI allI impI)
      subgoal by (rule d)
      subgoal by (rule own)
      subgoal by (rule c2)
      subgoal by (rule c3)
      subgoal by (rule c4)
      done
  qed
  have 11: "\<exists>s2. schedule ?s1 (replicate (length (goroutines ?s1)) 0) = Inr s2 \<and>
      goroutines s2 = []" if quiet: "goroutines s = []"
    using assms(1) quiet assms(2) valid(2,3) allowed by (rule broadcast(2))
  show ?thesis
    apply (intro conjI allI impI)
    subgoal by (rule 1 [unfolded m_def])
    subgoal by (rule 2 [unfolded m_def])
    subgoal by (rule 3)
    subgoal by (rule 4)
    subgoal by (rule 5)
    subgoal by (rule 6)
    subgoal by (elim conjE) (rule 7 [unfolded m_def]; assumption)
    subgoal by (elim conjE) (rule 8 [unfolded m_def]; assumption)
    subgoal by (elim conjE) (rule 9 [unfolded m_def]; assumption)
    subgoal by (rule 10 [unfolded m_def])
    subgoal by (rule 11)
    done
qed


text \<open>
  \<open>a\<close> says \<open>hi\<close> at time 1 and \<open>yo\<close> at time 2 in the service with clients \<open>a\<close> and
  \<open>b\<close>, and at the second call the goroutine of the first is still pending. The
  scheduler runs the goroutine of the second call first: \<open>b\<close> holds \<open>a: yo\<close>, which its
  \<^verbatim>\<open>GetMessage\<close> returns, \<open>a\<close> holds nothing, and the goroutine carrying \<open>a: hi\<close> is
  still pending. And when \<open>a\<close> says \<open>hi\<close> with nothing pending and the goroutine runs,
  \<open>b\<close> holds \<open>a: hi\<close> and a \<^verbatim>\<open>GetMessage\<close> of \<open>a\<close> times out.
\<close>

theorem C1_broadcast_delivers_witness:
  "goroutines (snd (SendMessage a_sent ''a'' ''yo'' 2)) = [(1, ''a: hi''), (1, ''a: yo'')] \<and>
   (\<exists>s2. deliver (snd (SendMessage a_sent ''a'' ''yo'' 2)) 1 = Inr s2 \<and>
      ch_buf (Ch (clients s2 ! 1)) = [''a: yo''] \<and> ch_buf (Ch (clients s2 ! 0)) = [] \<and>
      goroutines s2 = [(1, ''a: hi'')] \<and>
      fst (receive_all s2 ''b'' [3]) = [Inr (MessageResponse ''a: yo'')]) \<and>
   (\<exists>s2. schedule (snd (SendMessage two_clients ''a'' ''hi'' 1)) [0] = Inr s2 \<and>
      goroutines s2 = [] \<and>
      ch_buf (Ch (clients s2 ! 1)) = [''a: hi''] \<and> ch_buf (Ch (clients s2 ! 0)) = [] \<and>
      GetMessage s2 ''a'' [] 2 [] = Inr (Inl ERR_NO_MESSAGES, set_LastSeen s2 0 2))"
proof -
  have ne: "''a'' \<noteq> ''b''" by simp
  have i: "invariant a_sent" and la: "map_of (streams a_sent) ''a'' = Some 0"
    and lb: "map_of (streams a_sent) ''b'' = Some 1"
    and ok: "fst (SendMessage a_sent ''a'' ''yo'' 2) =
      Inr (SendMessageResponse True ''Message broadcasted to clients'')"
    and g: "goroutines a_sent = [(1, ''a: hi'')]"
    and es: "filter (\<lambda>e. fst e \<noteq> ''a'') (streams a_sent) = [(''b'', 1)]"
    by code_simp+
  note T = C1_broadcast_delivers [OF i la lb ne ok]
  let ?s1 = "snd (SendMessage a_sent ''a'' ''yo'' 2)"
  let ?s2 = "set_Ch (?s1\<lparr>goroutines := take 1 (goroutines ?s1) @ drop (Suc 1) (goroutines ?s1)\<rparr>) 1
                 ((Ch (clients ?s1 ! 1))
                    \<lparr>ch_buf := ch_buf (Ch (clients ?s1 ! 1)) @ [''a'' @ '': '' @ ''yo'']\<rparr>)"
  from T [THEN conjunct1] g es
  have 1: "goroutines ?s1 = [(1, ''a: hi''), (1, ''a: yo'')]" by simp
  have h: "1 < length (goroutines ?s1) \<and> goroutines ?s1 ! 1 = (1, ''a'' @ '': '' @ ''yo'') \<and>
        \<not> ch_closed (Ch (clients ?s1 ! 1)) \<and>
        length (ch_buf (Ch (clients ?s1 ! 1))) < ch_cap (Ch (clients ?s1 ! 1))"
    by code_simp
  from T [THEN conjunct2, THEN conjunct2, THEN conjunct2, THEN conjunct2, THEN conjunct2,
      THEN conjunct2, THEN conjunct1, rule_format, OF h]
  have d: "deliver ?s1 1 = Inr ?s2" .
  have f: "ch_buf (Ch (clients ?s2 ! 1)) = [''a: yo'']" "ch_buf (Ch (clients ?s2 ! 0)) = []"
    "goroutines ?s2 = [(1, ''a: hi'')]"
    by code_simp+
  have h9: "invariant ?s2 \<and> map_of (streams ?s2) ''b'' = Some 1 \<and>
        ch_buf (Ch (clients ?s2 ! 1)) = [] @ (''a'' @ '': '' @ ''yo'') # [] \<and>
        length [3 :: int] = Suc (length ([] :: string list))"
    by code_simp
  from T [THEN conjunct2, THEN conjunct2, THEN conjunct2, THEN conjunct2, THEN conjunct2,
      THEN conjunct2, THEN conjunct2, THEN conjunct2, THEN conjunct1, rule_format, OF h9]
  have r: "fst (receive_all ?s2 ''b'' [3]) = [Inr (MessageResponse ''a: yo'')]" by simp
  have 2: "\<exists>s2. deliver ?s1 1 = Inr s2 \<and>
      ch_buf (Ch (clients s2 ! 1)) = [''a: yo''] \<and> ch_buf (Ch (clients s2 ! 0)) = [] \<and>
      goroutines s2 = [(1, ''a: hi'')] \<and>
      fst (receive_all s2 ''b'' [3]) = [Inr (MessageResponse ''a: yo'')]"
    apply (rule exI [of _ ?s2])
    apply (intro conjI)
    subgoal by (rule d)
    subgoal by (rule f(1))
    subgoal by (rule f(2))
    subgoal by (rule f(3))
    subgoal by (rule r)
    done
  have q: "goroutines two_clients = []"
    and ok': "fst (SendMessage two_clients ''a'' ''hi'' 1) =
      Inr (SendMessageResponse True ''Message broadcasted to clients'')"
    and ea: "ch_buf (Ch (clients two_clients ! 0)) = []"
    and eb: "ch_buf (Ch (clients two_clients ! 1)) = []" by code_simp+
  let ?t1 = "snd (SendMessage two_clients ''a'' ''hi'' 1)"
  note U = C1_broadcast_delivers [OF two_clients_invariant two_clients_lookup ne ok']
  from U [THEN conjunct2, THEN conjunct2, THEN conjunct2, THEN conjunct2, THEN conjunct2,
      THEN conjunct2, THEN conjunct2, THEN conjunct2, THEN conjunct2, rule_format, OF q,
      THEN conjunct1, rule_format, of "[0]"]
  obtain s2 where B: "schedule ?t1 [0] = Inr s2 \<and>
           Ch (clients s2 ! 0) = Ch (clients two_clients ! 0) \<and>
           (goroutines s2 = [] \<longrightarrow>
              Ch (clients s2 ! 1) =
                (if length (ch_buf (Ch (clients two_clients ! 1))) < 10
                 then (Ch (clients two_clients ! 1))
                        \<lparr>ch_buf := ch_buf (Ch (clients two_clients ! 1)) @ [''a'' @ '': '' @ ''hi'']\<rparr>
                 else Ch (clients two_clients ! 1)) \<and>
              (\<forall>ts. length (ch_buf (Ch (clients two_clients ! 1))) < 10 \<and>
                 length ts = Suc (length (ch_buf (Ch (clients two_clients ! 1)))) \<longrightarrow>
                 fst (receive_all s2 ''b'' ts) =
                   map (\<lambda>m. Inr (MessageResponse m))
                     (ch_buf (Ch (clients two_clients ! 1)) @ [''a'' @ '': '' @ ''hi''])) \<and>
              (\<forall>now'. ch_buf (Ch (clients two_clients ! 0)) = [] \<longrightarrow>
                 GetMessage s2 ''a'' [] now' [] =
                   Inr (Inl ERR_NO_MESSAGES, set_LastSeen s2 0 now')))" ..
  note sch = B [THEN conjunct1]
  have "schedule ?t1 [0] = Inr (projr (schedule ?t1 [0]))"
    and "goroutines (projr (schedule ?t1 [0])) = []" by code_simp+
  with sch have fin: "goroutines s2 = []" by simp
  note C = B [THEN conjunct2, THEN conjunct2, rule_format, OF fin]
  from C [THEN conjunct1] eb have 3: "ch_buf (Ch (clients s2 ! 1)) = [''a: hi'']" by simp
  from B [THEN conjunct2, THEN conjunct1] ea have 4: "ch_buf (Ch (clients s2 ! 0)) = []" by simp
  from C [THEN conjunct2, THEN conjunct2, rule_format, OF ea, of 2]
  have 5: "GetMessage s2 ''a'' [] 2 [] = Inr (Inl ERR_NO_MESSAGES, set_LastSeen s2 0 2)" .
  have 6: "\<exists>s2. schedule ?t1 [0] = Inr s2 \<and> goroutines s2 = [] \<and>
      ch_buf (Ch (clients s2 ! 1)) = [''a: hi''] \<and> ch_buf (Ch (clients s2 ! 0)) = [] \<and>
      GetMessage s2 ''a'' [] 2 [] = Inr (Inl ERR_NO_MESSAGES, set_LastSeen s2 0 2)"
    apply (rule exI [of _ s2])
    apply (intro conjI)
    subgoal by (rule sch)
    subgoal by (rule fin)
    subgoal by (rule 3)
    subgoal by (rule 4)
    subgoal by (rule 5)
    done
  from 1 2 6 show ?thesis by (intro conjI)
qed


section \<open>A full mailbox\<close>

text \<open>
  Claim C2. \<open>r\<close> is a registered recipient. A valid \<^verbatim>\<open>SendMessage\<close> of another
  client that passes the limiter returns success and starts a goroutine for \<open>r\<close>,
  whatever the mailboxes hold and whatever goroutines are still pending. Whenever a
  goroutine for \<open>r\<close> runs while the mailbox of \<open>r\<close> holds 10 messages, the capacity
  \<^verbatim>\<open>Join\<close> gave it, the message is dropped: nothing panics, no client changes, and
  the goroutine is gone, so that nothing is left that could deliver the message later.
  A goroutine that finds an open mailbox with room appends its message, and running a
  goroutine leaves every client but its own recipient as it was: a full mailbox holds
  up no other delivery. When no earlier fan-out is pending at the call and the mailbox
  of \<open>r\<close> is full, then under every schedule no goroutine panics and \<open>r\<close> is exactly
  as before; once all goroutines have run, eleven \<^verbatim>\<open>GetMessage\<close> calls of \<open>r\<close> return
  the ten old messages and then time out, and every other recipient that had room has
  the message at the end of its mailbox; and running the first pending goroutine again
  and again is a schedule that runs them all.
\<close>

theorem C2_full_mailbox_drops:
  assumes "invariant s"
    and "map_of (streams s) a = Some pa" and "map_of (streams s) r = Some pr" and "a \<noteq> r"
    and "t \<noteq> []" and "length t \<le> 500"
    and "fst (Allow (RateLimiter (clients s ! pa)) now)"
  shows
    "fst (SendMessage s a t now) =
       Inr (SendMessageResponse True ''Message broadcasted to clients'') \<and>
     goroutines (snd (SendMessage s a t now)) =
       goroutines s @
       map (\<lambda>e. (snd e, a @ '': '' @ t)) (filter (\<lambda>e. fst e \<noteq> a) (streams s)) \<and>
     (pr, a @ '': '' @ t) \<in>
       set (map (\<lambda>e. (snd e, a @ '': '' @ t)) (filter (\<lambda>e. fst e \<noteq> a) (streams s))) \<and>
     (\<forall>s' k m. invariant s' \<and> map_of (streams s') r = Some pr \<and>
        k < length (goroutines s') \<and> goroutines s' ! k = (pr, m) \<and>
        length (ch_buf (Ch (clients s' ! pr))) = 10 \<longrightarrow>
        deliver s' k =
          Inr (s'\<lparr>goroutines := take k (goroutines s') @ drop (Suc k) (goroutines s')\<rparr>)) \<and>
     (\<forall>s' k q m. k < length (goroutines s') \<and> goroutines s' ! k = (q, m) \<and>
        \<not> ch_closed (Ch (clients s' ! q)) \<and>
        length (ch_buf (Ch (clients s' ! q))) < ch_cap (Ch (clients s' ! q)) \<longrightarrow>
        deliver s' k =
          Inr (set_Ch
                 (s'\<lparr>goroutines := take k (goroutines s') @ drop (Suc k) (goroutines s')\<rparr>) q
                 ((Ch (clients s' ! q))\<lparr>ch_buf := ch_buf (Ch (clients s' ! q)) @ [m]\<rparr>))) \<and>
     (\<forall>s' k q m s'' q'. k < length (goroutines s') \<and> goroutines s' ! k = (q, m) \<and>
        deliver s' k = Inr s'' \<and> q' \<noteq> q \<longrightarrow> clients s'' ! q' = clients s' ! q') \<and>
     (goroutines s = [] \<and> length (ch_buf (Ch (clients s ! pr))) = 10 \<longrightarrow>
        (\<forall>ks. \<exists>s2. schedule (snd (SendMessage s a t now)) ks = Inr s2 \<and>
           streams s2 = streams s \<and> clients s2 ! pr = clients s ! pr \<and>
           (goroutines s2 = [] \<longrightarrow>
              (\<forall>ts. length ts = 11 \<longrightarrow>
                 fst (receive_all s2 r ts) =
                   map (\<lambda>m. Inr (MessageResponse m)) (ch_buf (Ch (clients s ! pr))) @
                   [Inl ERR_NO_MESSAGES]) \<and>
              (\<forall>u q. u \<noteq> a \<and> map_of (streams s) u = Some q \<and>
                 length (ch_buf (Ch (clients s ! q))) < 10 \<longrightarrow>
                 ch_buf (Ch (clients s2 ! q)) =
                   ch_buf (Ch (clients s ! q)) @ [a @ '': '' @ t]))) \<and>
        (\<exists>s2. schedule (snd (SendMessage s a t now))
                 (replicate (length (goroutines (snd (SendMessage s a t now)))) 0) = Inr s2 \<and>
           goroutines s2 = []))"
proof -
  define m where "m = a @ '': '' @ t"
  let ?es = "filter (\<lambda>e. fst e \<noteq> a) (streams s)"
  let ?s1 = "snd (SendMessage s a t now)"
  have frm: "a \<noteq> []" using assms(1,2) by (rule invariant_lookup)
  have "(r, pr) \<in> set (streams s)" using assms(3) by (rule map_of_SomeD)
  with assms(4) have mem: "(r, pr) \<in> set ?es" by simp
  have ne: "?es \<noteq> []"
  proof
    assume "?es = []"
    with mem have "(r, pr) \<in> set []" by (simp only:)
    then show False by simp
  qed
  note SA = SendMessage_allowed [OF frm assms(5,6,2,7), folded m_def]
  from SA ne have 1: "fst (SendMessage s a t now) =
       Inr (SendMessageResponse True ''Message broadcasted to clients'')" by simp
  from SA have 2: "goroutines ?s1 = goroutines s @ map (\<lambda>e. (snd e, m)) ?es" by simp
  from mem have 3: "(pr, m) \<in> set (map (\<lambda>e. (snd e, m)) ?es)" by force
  have 4: "deliver s' k =
          Inr (s'\<lparr>goroutines := take k (goroutines s') @ drop (Suc k) (goroutines s')\<rparr>)"
    if "invariant s'" "map_of (streams s') r = Some pr" "k < length (goroutines s')"
      "goroutines s' ! k = (pr, m')" "length (ch_buf (Ch (clients s' ! pr))) = 10" for s' k m'
  proof -
    have op: "\<not> ch_closed (Ch (clients s' ! pr))" using that(1,2) by (rule invariant_lookup)
    have "client_ok (clients s' ! pr)" using that(1,2) by (rule invariant_lookup)
    then have "ch_cap (Ch (clients s' ! pr)) = 10" by (simp add: client_ok_def)
    with that(5) have
      "\<not> length (ch_buf (Ch (clients s' ! pr))) < ch_cap (Ch (clients s' ! pr))" by simp
    with that(3,4) op show ?thesis by (rule deliver_full)
  qed
  have 5: "deliver s' k =
          Inr (set_Ch
                 (s'\<lparr>goroutines := take k (goroutines s') @ drop (Suc k) (goroutines s')\<rparr>) q
                 ((Ch (clients s' ! q))\<lparr>ch_buf := ch_buf (Ch (clients s' ! q)) @ [m']\<rparr>))"
    if "k < length (goroutines s')" "goroutines s' ! k = (q, m')"
      "\<not> ch_closed (Ch (clients s' ! q))"
      "length (ch_buf (Ch (clients s' ! q))) < ch_cap (Ch (clients s' ! q))" for s' k q m'
    using that by (rule deliver_room)
  have 6: "clients s'' ! q' = clients s' ! q'"
    if "k < length (goroutines s')" "goroutines s' ! k = (q, m')" "deliver s' k = Inr s''"
      "q' \<noteq> q" for s' k q m' s'' q'
    using that by (rule deliver_others(3))
  have 7: "\<exists>s2. schedule ?s1 ks = Inr s2 \<and>
           streams s2 = streams s \<and> clients s2 ! pr = clients s ! pr \<and>
           (goroutines s2 = [] \<longrightarrow>
              (\<forall>ts. length ts = 11 \<longrightarrow>
                 fst (receive_all s2 r ts) =
                   map (\<lambda>m. Inr (MessageResponse m)) (ch_buf (Ch (clients s ! pr))) @
                   [Inl ERR_NO_MESSAGES]) \<and>
              (\<forall>u q. u \<noteq> a \<and> map_of (streams s) u = Some q \<and>
                 length (ch_buf (Ch (clients s ! q))) < 10 \<longrightarrow>
                 ch_buf (Ch (clients s2 ! q)) = ch_buf (Ch (clients s ! q)) @ [m]))"
    if quiet: "goroutines s = []" and full: "length (ch_buf (Ch (clients s ! pr))) = 10" for ks
  proof -
    have g1: "goroutines ?s1 = map (\<lambda>q. (q, m)) (map snd ?es)"
      using 2 quiet by (simp add: comp_def)
    have i1: "invariant ?s1" using assms(1) by (rule invariant_SendMessage)
    have chan: "Ch (clients ?s1 ! q) = Ch (clients s ! q)" for q by (rule SendMessage_frame(4))
    have len1: "length (clients ?s1) = length (clients s)" by (rule SendMessage_frame(2))
    have st1: "streams ?s1 = streams s" by (rule SendMessage_frame(1))
    have pre: "\<forall>q \<in> set (map snd ?es).
        q < length (clients ?s1) \<and> \<not> ch_closed (Ch (clients ?s1 ! q))"
    proof
      fix q assume "q \<in> set (map snd ?es)"
      then obtain u where "map_of (streams s) u = Some q"
        using receiver_iff [OF assms(1)] by blast
      from invariant_lookup(2,4) [OF assms(1) this]
      show "q < length (clients ?s1) \<and> \<not> ch_closed (Ch (clients ?s1 ! q))"
        by (simp add: chan len1)
    qed
    from schedule_same_message [OF g1 receivers_distinct [OF assms(1)] pre, of ks]
    obtain s2 ps' where s2:
      "schedule ?s1 ks = Inr s2" "streams s2 = streams ?s1"
      "goroutines s2 = map (\<lambda>q. (q, m)) ps'"
      "\<forall>q. clients s2 ! q =
          (if q \<in> set (map snd ?es) \<and> q \<notin> set ps' \<and>
              length (ch_buf (Ch (clients ?s1 ! q))) < ch_cap (Ch (clients ?s1 ! q))
           then (clients ?s1 ! q)\<lparr>Ch := (Ch (clients ?s1 ! q))\<lparr>ch_buf := ch_buf (Ch (clients ?s1 ! q)) @ [m]\<rparr>\<rparr>
           else clients ?s1 ! q)"
      by blast
    have i2: "invariant s2" using i1 s2(1) by (rule invariant_schedule)
    have st: "streams s2 = streams s" by (simp add: s2(2) st1)
    have cap: "ch_cap (Ch (clients s ! q)) = 10" if "map_of (streams s) u = Some q" for u q
    proof -
      have "client_ok (clients s ! q)" using assms(1) that by (rule invariant_lookup)
      then show ?thesis by (simp add: client_ok_def)
    qed
    have same: "clients ?s1 ! q = clients s ! q" if "u \<noteq> a" "map_of (streams s) u = Some q" for u q
    proof -
      have "q \<noteq> pa" using invariant_pointers_differ [OF assms(1) that(2) assms(2) that(1)] .
      then show ?thesis
        using SendMessage_allowed [OF frm assms(5,6,2,7)] by (simp add: set_RateLimiter_nth)
    qed
    have r2: "clients s2 ! pr = clients s ! pr"
      using s2(4) full cap [OF assms(3)] same [OF assms(4) [symmetric] assms(3)]
      by (simp add: chan)
    have c1: "fst (receive_all s2 r ts) =
        map (\<lambda>m. Inr (MessageResponse m)) (ch_buf (Ch (clients s ! pr))) @ [Inl ERR_NO_MESSAGES]"
      if "length ts = 11" for ts
    proof -
      have lr: "map_of (streams s2) r = Some pr" using assms(3) by (simp add: st)
      from that full have "length ts = Suc (length (ch_buf (Ch (clients s2 ! pr))))"
        by (simp add: r2)
      from receive_all_then_nothing [OF i2 lr this] show ?thesis by (simp add: r2)
    qed
    have c2: "ch_buf (Ch (clients s2 ! q)) = ch_buf (Ch (clients s ! q)) @ [m]"
      if "goroutines s2 = []"
        "u \<noteq> a \<and> map_of (streams s) u = Some q \<and> length (ch_buf (Ch (clients s ! q))) < 10"
      for u q
    proof -
      from that(2) have u: "u \<noteq> a" "map_of (streams s) u = Some q"
        "length (ch_buf (Ch (clients s ! q))) < 10" by simp_all
      have in_ps: "q \<in> set (map snd ?es)" using receiver_iff [OF assms(1)] u(1,2) by blast
      have none: "q \<notin> set ps'" using that(1) s2(3) by simp
      from s2(4) in_ps none u(3) cap [OF u(2)] same [OF u(1,2)] show ?thesis
        by (simp add: chan)
    qed
    show ?thesis
      apply (rule exI [of _ s2])
      apply (intro conjI allI impI)
      subgoal by (rule s2(1))
      subgoal by (rule st)
      subgoal by (rule r2)
      subgoal by (rule c1)
      subgoal by (rule c2)
      done
  qed
  have 8: "\<exists>s2. schedule ?s1 (replicate (length (goroutines ?s1)) 0) = Inr s2 \<and>
      goroutines s2 = []" if quiet: "goroutines s = []"
    using assms(1) quiet assms(2,5,6,7) by (rule broadcast(2))
  show ?thesis
    apply (intro conjI allI impI)
    subgoal by (rule 1)
    subgoal by (rule 2 [unfolded m_def])
    subgoal by (rule 3 [unfolded m_def])
    subgoal by (elim conjE) (rule 4; assumption)
    subgoal by (elim conjE) (rule 5; assumption)
    subgoal by (elim conjE) (rule 6; assumption)
    subgoal by (elim conjE) (rule 7 [unfolded m_def]; assumption)
    subgoal by (elim conjE) (rule 8; assumption)
    done
qed


text \<open>
  \<open>b\<close> has ten messages waiting and \<open>c\<close> none. \<open>a\<close> broadcasts \<open>new\<close> at second 11:
  the call succeeds and starts a goroutine for \<open>c\<close> and one for \<open>b\<close>. When the
  scheduler runs the one for \<open>b\<close> first, it ends without effect. After both have run
  \<open>b\<close> still holds its ten old messages, which is all it receives, and \<open>c\<close> holds the
  new one. And when \<open>b\<close> has nine messages waiting and the goroutines of a broadcast
  \<open>x\<close> are still pending, a broadcast \<open>y\<close> succeeds; the scheduler then runs the
  goroutine carrying \<open>a: x\<close> to \<open>b\<close>, which fills the mailbox, and the one carrying
  \<open>a: y\<close> to \<open>b\<close> after it ends without effect, although the mailbox had room when
  \<open>y\<close> was sent.
\<close>

theorem C2_full_mailbox_drops_witness:
  "fst (SendMessage b_full ''a'' ''new'' (11 * Second)) =
     Inr (SendMessageResponse True ''Message broadcasted to clients'') \<and>
   goroutines (snd (SendMessage b_full ''a'' ''new'' (11 * Second))) =
     [(2, ''a: new''), (1, ''a: new'')] \<and>
   deliver (snd (SendMessage b_full ''a'' ''new'' (11 * Second))) 1 =
     Inr ((snd (SendMessage b_full ''a'' ''new'' (11 * Second)))
            \<lparr>goroutines := [(2, ''a: new'')]\<rparr>) \<and>
   (\<exists>s2. schedule (snd (SendMessage b_full ''a'' ''new'' (11 * Second))) [1, 0] = Inr s2 \<and>
      goroutines s2 = [] \<and>
      ch_buf (Ch (clients s2 ! 1)) = replicate 10 ''a: old'' \<and>
      ch_buf (Ch (clients s2 ! 2)) = [''a: new''] \<and>
      fst (receive_all s2 ''b'' (replicate 11 (12 * Second))) =
        replicate 10 (Inr (MessageResponse ''a: old'')) @ [Inl ERR_NO_MESSAGES]) \<and>
   fst (SendMessage b_nine_pending ''a'' ''y'' (11 * Second)) =
     Inr (SendMessageResponse True ''Message broadcasted to clients'') \<and>
   (\<exists>s2. deliver (snd (SendMessage b_nine_pending ''a'' ''y'' (11 * Second))) 1 = Inr s2 \<and>
      ch_buf (Ch (clients s2 ! 1)) = replicate 9 ''a: old'' @ [''a: x''] \<and>
      goroutines s2 = [(2, ''a: x''), (2, ''a: y''), (1, ''a: y'')] \<and>
      deliver s2 2 = Inr (s2\<lparr>goroutines := [(2, ''a: x''), (2, ''a: y'')]\<rparr>))"
proof -
  let ?s1 = "snd (SendMessage b_full ''a'' ''new'' (11 * Second))"
  have i: "invariant b_full" and g: "goroutines b_full = []"
    and la: "map_of (streams b_full) ''a'' = Some 0"
    and lb: "map_of (streams b_full) ''b'' = Some 1"
    and lc: "map_of (streams b_full) ''c'' = Some 2"
    and al: "fst (Allow (RateLimiter (clients b_full ! 0)) (11 * Second))"
    and full: "length (ch_buf (Ch (clients b_full ! 1))) = 10"
    and old: "ch_buf (Ch (clients b_full ! 1)) = replicate 10 ''a: old''"
    and room: "ch_buf (Ch (clients b_full ! 2)) = []"
    and es: "filter (\<lambda>e. fst e \<noteq> ''a'') (streams b_full) = [(''c'', 2), (''b'', 1)]"
    by code_simp+
  have ne: "''a'' \<noteq> ''b''" "''new'' \<noteq> []" "length ''new'' \<le> 500" by simp_all
  note T = C2_full_mailbox_drops [OF i la lb ne al]
  note 1 = T [THEN conjunct1]
  from T [THEN conjunct2, THEN conjunct1] g es
  have 2: "goroutines ?s1 = [(2, ''a: new''), (1, ''a: new'')]" by simp
  have h: "invariant ?s1 \<and> map_of (streams ?s1) ''b'' = Some 1 \<and>
        1 < length (goroutines ?s1) \<and> goroutines ?s1 ! 1 = (1, ''a: new'') \<and>
        length (ch_buf (Ch (clients ?s1 ! 1))) = 10"
    by code_simp
  from T [THEN conjunct2, THEN conjunct2, THEN conjunct2, THEN conjunct1, rule_format, OF h]
  have 3: "deliver ?s1 1 = Inr (?s1\<lparr>goroutines := [(2, ''a: new'')]\<rparr>)" by (simp add: 2)
  have h7: "goroutines b_full = [] \<and> length (ch_buf (Ch (clients b_full ! 1))) = 10"
    using g full by simp
  from T [THEN conjunct2, THEN conjunct2, THEN conjunct2, THEN conjunct2, THEN conjunct2,
      THEN conjunct2, rule_format, OF h7, THEN conjunct1, rule_format, of "[1, 0]"]
  obtain s2 where B: "schedule ?s1 [1, 0] = Inr s2 \<and>
           streams s2 = streams b_full \<and> clients s2 ! 1 = clients b_full ! 1 \<and>
           (goroutines s2 = [] \<longrightarrow>
              (\<forall>ts. length ts = 11 \<longrightarrow>
                 fst (receive_all s2 ''b'' ts) =
                   map (\<lambda>m. Inr (MessageResponse m)) (ch_buf (Ch (clients b_full ! 1))) @
                   [Inl ERR_NO_MESSAGES]) \<and>
              (\<forall>u q. u \<noteq> ''a'' \<and> map_of (streams b_full) u = Some q \<and>
                 length (ch_buf (Ch (clients b_full ! q))) < 10 \<longrightarrow>
                 ch_buf (Ch (clients s2 ! q)) =
                   ch_buf (Ch (clients b_full ! q)) @ [''a'' @ '': '' @ ''new'']))" ..
  note sch = B [THEN conjunct1]
  have "schedule ?s1 [1, 0] = Inr (projr (schedule ?s1 [1, 0]))"
    and "goroutines (projr (schedule ?s1 [1, 0])) = []" by code_simp+
  with sch have fin: "goroutines s2 = []" by simp
  note C = B [THEN conjunct2, THEN conjunct2, THEN conjunct2, rule_format, OF fin]
  from B [THEN conjunct2, THEN conjunct2, THEN conjunct1] old
  have 4: "ch_buf (Ch (clients s2 ! 1)) = replicate 10 ''a: old''" by simp
  have hc: "''c'' \<noteq> ''a'' \<and> map_of (streams b_full) ''c'' = Some 2 \<and>
           length (ch_buf (Ch (clients b_full ! 2))) < 10"
    using lc room by simp
  from C [THEN conjunct2, rule_format, OF hc] room
  have 5: "ch_buf (Ch (clients s2 ! 2)) = [''a: new'']" by simp
  have "length (replicate 11 (12 * Second)) = 11" by simp
  from C [THEN conjunct1, rule_format, OF this] old
  have 6: "fst (receive_all s2 ''b'' (replicate 11 (12 * Second))) =
        replicate 10 (Inr (MessageResponse ''a: old'')) @ [Inl ERR_NO_MESSAGES]"
    by (simp add: map_replicate)
  have 7: "\<exists>s2. schedule ?s1 [1, 0] = Inr s2 \<and> goroutines s2 = [] \<and>
      ch_buf (Ch (clients s2 ! 1)) = replicate 10 ''a: old'' \<and>
      ch_buf (Ch (clients s2 ! 2)) = [''a: new''] \<and>
      fst (receive_all s2 ''b'' (replicate 11 (12 * Second))) =
        replicate 10 (Inr (MessageResponse ''a: old'')) @ [Inl ERR_NO_MESSAGES]"
    apply (rule exI [of _ s2])
    apply (intro conjI)
    subgoal by (rule sch)
    subgoal by (rule fin)
    subgoal by (rule 4)
    subgoal by (rule 5)
    subgoal by (rule 6)
    done
  let ?u1 = "snd (SendMessage b_nine_pending ''a'' ''y'' (11 * Second))"
  let ?u2 = "projr (deliver ?u1 1)"
  have i': "invariant b_nine_pending"
    and la': "map_of (streams b_nine_pending) ''a'' = Some 0"
    and lb': "map_of (streams b_nine_pending) ''b'' = Some 1"
    and al': "fst (Allow (RateLimiter (clients b_nine_pending ! 0)) (11 * Second))"
    by code_simp+
  have ne': "''y'' \<noteq> []" "length ''y'' \<le> 500" by simp_all
  note U = C2_full_mailbox_drops [OF i' la' lb' ne(1) ne' al']
  note 8 = U [THEN conjunct1]
  have d1: "deliver ?u1 1 = Inr ?u2"
    and b1: "ch_buf (Ch (clients ?u2 ! 1)) = replicate 9 ''a: old'' @ [''a: x'']"
    and g1: "goroutines ?u2 = [(2, ''a: x''), (2, ''a: y''), (1, ''a: y'')]"
    by code_simp+
  have h': "invariant ?u2 \<and> map_of (streams ?u2) ''b'' = Some 1 \<and>
        2 < length (goroutines ?u2) \<and> goroutines ?u2 ! 2 = (1, ''a: y'') \<and>
        length (ch_buf (Ch (clients ?u2 ! 1))) = 10"
    by code_simp
  have tk: "take 2 (goroutines ?u2) @ drop (Suc 2) (goroutines ?u2) =
      [(2, ''a: x''), (2, ''a: y'')]"
    unfolding g1 by simp
  from U [THEN conjunct2, THEN conjunct2, THEN conjunct2, THEN conjunct1, rule_format, OF h']
  have d2: "deliver ?u2 2 = Inr (?u2\<lparr>goroutines := [(2, ''a: x''), (2, ''a: y'')]\<rparr>)"
    unfolding tk .
  have 9: "\<exists>s2. deliver ?u1 1 = Inr s2 \<and>
      ch_buf (Ch (clients s2 ! 1)) = replicate 9 ''a: old'' @ [''a: x''] \<and>
      goroutines s2 = [(2, ''a: x''), (2, ''a: y''), (1, ''a: y'')] \<and>
      deliver s2 2 = Inr (s2\<lparr>goroutines := [(2, ''a: x''), (2, ''a: y'')]\<rparr>)"
    apply (rule exI [of _ ?u2])
    apply (intro conjI)
    subgoal by (rule d1)
    subgoal by (rule b1)
    subgoal by (rule g1)
    subgoal by (rule d2)
    done
  from 1 2 3 7 8 9 show ?thesis by (intro conjI)
qed

section \<open>The reaper and an active client\<close>

lemma step_alive:
  assumes inv: "invariant s" and look: "map_of (streams s) uid = Some p"
    and ok: "act_ok uid seen (t, a)" and seen: "seen \<le> LastSeen (clients s ! p)"
    and step: "step s t a = Inr s'"
  shows "map_of (streams s') uid = Some p"
proof (cases a)
  case (DoJoin v)
  with step look show ?thesis using Join_keeps [of s uid p v t] by auto
next
  case (DoSendMessage frm msg)
  with step look show ?thesis using SendMessage_frame(1) [of s frm msg t] by auto
next
  case (DoLeave v)
  with ok have v: "v \<noteq> uid" by simp
  from DoLeave step obtain r where "Leave s v = Inr (r, s')" by (auto split: sum.splits)
  from Leave_frame(5) [OF this, of uid] v look show ?thesis by simp
next
  case (RunGoroutine k)
  with step have "deliver s k = Inr s'" by simp
  from deliver_frame(1) [OF this] look show ?thesis by simp
next
  case CleanupTick
  with ok seen have fresh: "\<not> 5 * Minute < t - LastSeen (clients s ! p)" by simp
  from cleanup_props [OF inv, of t] CleanupTick step
  have "map_of (streams s') uid =
        (case map_of (streams s) uid of
           None \<Rightarrow> None
         | Some q \<Rightarrow> if 5 * Minute < t - LastSeen (clients s ! q) then None else Some q)"
    by auto
  with look fresh show ?thesis by simp
qed

lemma steps_alive_one:
  assumes "invariant s" "map_of (streams s) uid = Some p"
    "act_ok uid seen (t, a)" "seen \<le> LastSeen (clients s ! p)" "step s t a = Inr s'"
  shows "invariant s' \<and> map_of (streams s') uid = Some p \<and> seen \<le> LastSeen (clients s' ! p)"
proof -
  have p: "p < length (clients s)" using assms(1,2) by (rule invariant_lookup)
  from step_frame(1) [OF assms(1,5) p] assms(4)
  have "seen \<le> LastSeen (clients s' ! p)" by simp
  moreover have "invariant s'" using assms(1,5) by (rule invariant_step)
  moreover have "map_of (streams s') uid = Some p" using assms by (rule step_alive)
  ultimately show ?thesis by simp
qed

lemma await_alive:
  "invariant s \<Longrightarrow> map_of (streams s) uid = Some p \<Longrightarrow> seen \<le> LastSeen (clients s ! p) \<Longrightarrow>
   list_all (act_ok uid seen) env \<Longrightarrow> await s c d env = Inr (r, s') \<Longrightarrow>
     map_of (streams s') uid = Some p"
proof (induction env arbitrary: s)
  case Nil
  show ?case
  proof (cases "idle s c")
    case True
    with Nil show ?thesis by (simp add: await_idle_Nil)
  next
    case False
    from not_idle_cases [OF this] Nil show ?thesis
      by (auto simp: await_message await_closed)
  qed
next
  case (Cons e env)
  obtain t a where e: "e = (t, a)" by (cases e)
  show ?case
  proof (cases "idle s c")
    case False
    from not_idle_cases [OF this] Cons.prems show ?thesis
      by (auto simp: await_message await_closed)
  next
    case True
    show ?thesis
    proof (cases "t < d")
      case False
      with True Cons.prems e show ?thesis by (simp add: await_idle_deadline)
    next
      case t: True
      show ?thesis
      proof (cases "step s t a")
        case (Inl x)
        with True t Cons.prems e show ?thesis by (simp add: await_idle_step)
      next
        case (Inr s1)
        with True t Cons.prems e have 1: "await s1 c d env = Inr (r, s')"
          by (simp add: await_idle_step)
        have ok: "act_ok uid seen (t, a)" and rest: "list_all (act_ok uid seen) env"
          using Cons.prems(4) e by simp_all
        from steps_alive_one [OF Cons.prems(1,2) ok Cons.prems(3) Inr]
        have "invariant s1" "map_of (streams s1) uid = Some p" "seen \<le> LastSeen (clients s1 ! p)"
          by simp_all
        from Cons.IH [OF this rest 1] show ?thesis .
      qed
    qed
  qed
qed

lemma steps_alive:
  "invariant s \<Longrightarrow> map_of (streams s) uid = Some p \<Longrightarrow> seen \<le> LastSeen (clients s ! p) \<Longrightarrow>
   list_all (act_ok uid seen) env \<Longrightarrow> steps s env = Inr s' \<Longrightarrow>
     invariant s' \<and> map_of (streams s') uid = Some p \<and> seen \<le> LastSeen (clients s' ! p)"
proof (induction env arbitrary: s)
  case Nil
  then show ?case by simp
next
  case (Cons e env)
  obtain t a where e: "e = (t, a)" by (cases e)
  from Cons.prems(5) e obtain s1 where s1: "step s t a = Inr s1" "steps s1 env = Inr s'"
    by (auto split: sum.splits)
  have ok: "act_ok uid seen (t, a)" and rest: "list_all (act_ok uid seen) env"
    using Cons.prems(4) e by simp_all
  from steps_alive_one [OF Cons.prems(1,2) ok Cons.prems(3) s1(1)]
  have "invariant s1" "map_of (streams s1) uid = Some p" "seen \<le> LastSeen (clients s1 ! p)"
    by simp_all
  from Cons.IH [OF this rest s1(2)] show ?case .
qed

lemma serve_alive:
  assumes inv: "invariant s" and look: "map_of (streams s) uid = Some p"
    and seen: "seen \<le> LastSeen (clients s ! p)"
    and ok: "polls_in_time uid seen [(t, r)]"
    and serve: "serve s t r = Inr s'"
  shows "invariant s' \<and> map_of (streams s') uid = Some p \<and>
     (case r of Poll u gap now env \<Rightarrow> if u = uid then now else seen | Act a \<Rightarrow> seen)
       \<le> LastSeen (clients s' ! p)"
proof -
  have i': "invariant s'" using inv serve by (rule invariant_serve)
  show ?thesis
  proof (cases r)
    case (Act a)
    with ok have "act_ok uid seen (t, a)" by simp
    from steps_alive_one [OF inv look this seen] Act serve show ?thesis by simp
  next
    case (Poll u gap now env)
    from Poll serve obtain x where G: "GetMessage s u gap now env = Inr (x, s')"
      by (auto split: sum.splits)
    from Poll ok have gap: "list_all (act_ok uid seen) gap" by simp
    show ?thesis
    proof (cases "u = uid")
      case True
      from inv look G [unfolded True] obtain s0 where s0: "steps s gap = Inr s0"
        "await (set_LastSeen s0 p now) p (now + 10 * Second) env = Inr (x, s')"
        by (rule GetMessage_returns)
      from steps_alive [OF inv look seen gap s0(1)]
      have i0: "invariant s0" and l0: "map_of (streams s0) uid = Some p" by simp_all
      have p: "p < length (clients s0)" using i0 l0 by (rule invariant_lookup)
      let ?s = "set_LastSeen s0 p now"
      from True Poll ok have env: "list_all (act_ok uid now) env" by simp
      have i1: "invariant ?s" using i0 by (rule invariant_set_LastSeen)
      have l1: "map_of (streams ?s) uid = Some p" using l0 by simp
      have s1: "now \<le> LastSeen (clients ?s ! p)" using p by (simp add: set_LastSeen_nth)
      have p1: "p < length (clients ?s)" using p by simp
      from await_alive [OF i1 l1 s1 env s0(2)] await_LastSeen [OF i1 p1 s0(2)] s1 i' True Poll
      show ?thesis by simp
    next
      case False
      with Poll ok have env: "list_all (act_ok uid seen) env" by simp
      show ?thesis
      proof (cases "u = [] \<or> map_of (streams s) u = None")
        case True
        then have "s' = s" using G by (cases "u = []") (auto simp: GetMessage_error)
        with inv look seen False Poll show ?thesis by simp
      next
        case reg: False
        then obtain q where q: "map_of (streams s) u = Some q" by auto
        have qp: "q \<noteq> p" using invariant_pointers_differ [OF inv q look False] .
        from inv q G obtain s0 where s0: "steps s gap = Inr s0"
          "await (set_LastSeen s0 q now) q (now + 10 * Second) env = Inr (x, s')"
          by (rule GetMessage_returns)
        from steps_alive [OF inv look seen gap s0(1)]
        have i0: "invariant s0" and l0: "map_of (streams s0) uid = Some p"
          and seen0: "seen \<le> LastSeen (clients s0 ! p)" by simp_all
        have p: "p < length (clients s0)" using i0 l0 by (rule invariant_lookup)
        let ?s = "set_LastSeen s0 q now"
        have i1: "invariant ?s" using i0 by (rule invariant_set_LastSeen)
        have l1: "map_of (streams ?s) uid = Some p" using l0 by simp
        have s1: "seen \<le> LastSeen (clients ?s ! p)"
          using seen0 qp by (simp add: set_LastSeen_nth)
        have p1: "p < length (clients ?s)" using p by simp
        from await_alive [OF i1 l1 s1 env s0(2)] await_LastSeen [OF i1 p1 s0(2)] s1 i' False Poll
        show ?thesis by simp
      qed
    qed
  qed
qed

lemma run_alive:
  "invariant s \<Longrightarrow> map_of (streams s) uid = Some p \<Longrightarrow> seen \<le> LastSeen (clients s ! p) \<Longrightarrow>
   polls_in_time uid seen tr \<Longrightarrow> run s tr = Inr s' \<Longrightarrow>
     invariant s' \<and> map_of (streams s') uid = Some p"
proof (induction tr arbitrary: s seen)
  case Nil
  then show ?case by simp
next
  case (Cons e tr)
  obtain t r where e: "e = (t, r)" by (cases e)
  from Cons.prems(5) e obtain s1 where s1: "serve s t r = Inr s1" "run s1 tr = Inr s'"
    by (auto split: sum.splits)
  let ?seen = "case r of Poll u gap now env \<Rightarrow> if u = uid then now else seen | Act a \<Rightarrow> seen"
  have one: "polls_in_time uid seen [(t, r)]" and rest: "polls_in_time uid ?seen tr"
    using Cons.prems(4) e by (cases r; simp split: if_splits)+
  from serve_alive [OF Cons.prems(1,2,3) one s1(1)]
  have "invariant s1" "map_of (streams s1) uid = Some p" "?seen \<le> LastSeen (clients s1 ! p)"
    by simp_all
  from Cons.IH [OF this rest s1(2)] show ?case .
qed

lemma next_tick_bounds:
  assumes "start \<le> t"
  shows "t < tick start (next_tick start t)" "tick start (next_tick start t) \<le> t + Minute"
proof -
  define q where "q = (t - start) div Minute"
  define r where "r = (t - start) mod Minute"
  have pos: "0 < Minute" by (simp add: Minute_def Second_def)
  have split: "t - start = q * Minute + r"
    by (simp add: q_def r_def)
  have r: "0 \<le> r" "r < Minute" using pos by (simp_all add: r_def)
  have nn: "0 \<le> q" using assms pos by (simp add: q_def pos_imp_zdiv_nonneg_iff)
  have eq: "tick start (next_tick start t) = start + (q + 1) * Minute"
    using nn by (simp add: tick_def next_tick_def q_def)
  have "(q + 1) * Minute = q * Minute + Minute" by (simp add: algebra_simps)
  with split r show "t < tick start (next_tick start t)"
    "tick start (next_tick start t) \<le> t + Minute"
    unfolding eq by linarith+
qed

text \<open>
  What the cleanup loop does for certain. The loop compares the tick with the value of
  \<open>LastSeen\<close> it finds, so what protects a client is the write of a \<^verbatim>\<open>GetMessage\<close>
  call, not the call as such: along any run in which, at every cleanup tick, the latest
  such write is at most five minutes old, and in which the client does not leave, it
  stays registered with an open mailbox. A single tick keeps a client seen within the
  last five minutes. An idle client: a tick more than five minutes after its
  \<open>LastSeen\<close> deletes it from the registry and closes its mailbox; afterwards
  \<^verbatim>\<open>GetMessage\<close> and \<^verbatim>\<open>Leave\<close> for the id fail with \<open>ERR_USER_NOT_FOUND\<close>, a valid
  \<^verbatim>\<open>SendMessage\<close> from it with \<open>ERR_SENDER_NOT_FOUND\<close>, and a receive that still waits
  on its empty mailbox ends with \<open>ERR_USER_DISCONNECTED\<close>. The ticker fires every
  minute, so the first tick past the threshold comes within six minutes of \<open>LastSeen\<close>.
\<close>

theorem idle_reaper:
  assumes "invariant s" and "map_of (streams s) uid = Some p"
  shows
    "(\<forall>seen tr s'. seen \<le> LastSeen (clients s ! p) \<and> polls_in_time uid seen tr \<and>
        run s tr = Inr s' \<longrightarrow>
        map_of (streams s') uid = Some p \<and> \<not> ch_closed (Ch (clients s' ! p))) \<and>
     (\<forall>now. now - LastSeen (clients s ! p) \<le> 5 * Minute \<longrightarrow>
        (\<exists>s'. cleanup s now = Inr s' \<and> map_of (streams s') uid = Some p \<and>
           clients s' ! p = clients s ! p)) \<and>
     (\<forall>now. 5 * Minute < now - LastSeen (clients s ! p) \<longrightarrow>
        (\<exists>s'. cleanup s now = Inr s' \<and> map_of (streams s') uid = None \<and>
           clients s' ! p = (clients s ! p)\<lparr>Ch := (Ch (clients s ! p))\<lparr>ch_closed := True\<rparr>\<rparr> \<and>
           (\<forall>gap t env. GetMessage s' uid gap t env = Inr (Inl ERR_USER_NOT_FOUND, s')) \<and>
           (\<forall>msg t. msg \<noteq> [] \<and> length msg \<le> 500 \<longrightarrow>
              SendMessage s' uid msg t = (Inl ERR_SENDER_NOT_FOUND, s')) \<and>
           Leave s' uid = Inr (Inl ERR_USER_NOT_FOUND, s') \<and>
           (\<forall>d env. ch_buf (Ch (clients s ! p)) = [] \<longrightarrow>
              await s' p d env = Inr (Inl ERR_USER_DISCONNECTED, s')))) \<and>
     (\<forall>start. start \<le> LastSeen (clients s ! p) \<longrightarrow>
        5 * Minute <
          tick start (next_tick start (LastSeen (clients s ! p) + 5 * Minute)) -
            LastSeen (clients s ! p) \<and>
        tick start (next_tick start (LastSeen (clients s ! p) + 5 * Minute)) -
            LastSeen (clients s ! p) \<le> 6 * Minute)"
proof -
  have uid: "uid \<noteq> []" using assms by (rule invariant_lookup)
  have 1: "map_of (streams s') uid = Some p \<and> \<not> ch_closed (Ch (clients s' ! p))"
    if "seen \<le> LastSeen (clients s ! p) \<and> polls_in_time uid seen tr \<and> run s tr = Inr s'"
    for seen tr s'
  proof -
    from that have a: "seen \<le> LastSeen (clients s ! p)" "polls_in_time uid seen tr"
      "run s tr = Inr s'" by simp_all
    from run_alive [OF assms a] have "invariant s'" "map_of (streams s') uid = Some p"
      by simp_all
    with invariant_lookup(4) [of s' uid p] show ?thesis by simp
  qed
  have 2: "\<exists>s'. cleanup s now = Inr s' \<and> map_of (streams s') uid = Some p \<and>
           clients s' ! p = clients s ! p"
    if "now - LastSeen (clients s ! p) \<le> 5 * Minute" for now
    using assms that by (rule cleanup_keeps)
  have 3: "\<exists>s'. cleanup s now = Inr s' \<and> map_of (streams s') uid = None \<and>
           clients s' ! p = (clients s ! p)\<lparr>Ch := (Ch (clients s ! p))\<lparr>ch_closed := True\<rparr>\<rparr> \<and>
           (\<forall>gap t env. GetMessage s' uid gap t env = Inr (Inl ERR_USER_NOT_FOUND, s')) \<and>
           (\<forall>msg t. msg \<noteq> [] \<and> length msg \<le> 500 \<longrightarrow>
              SendMessage s' uid msg t = (Inl ERR_SENDER_NOT_FOUND, s')) \<and>
           Leave s' uid = Inr (Inl ERR_USER_NOT_FOUND, s') \<and>
           (\<forall>d env. ch_buf (Ch (clients s ! p)) = [] \<longrightarrow>
              await s' p d env = Inr (Inl ERR_USER_DISCONNECTED, s'))"
    if "5 * Minute < now - LastSeen (clients s ! p)" for now
  proof -
    from cleanup_evicts [OF assms that] obtain s' where s':
      "cleanup s now = Inr s' \<and> invariant s' \<and> map_of (streams s') uid = None \<and>
       clients s' ! p = (clients s ! p)\<lparr>Ch := (Ch (clients s ! p))\<lparr>ch_closed := True\<rparr>\<rparr>" ..
    then have gone: "map_of (streams s') uid = None"
      and cl: "clients s' ! p = (clients s ! p)\<lparr>Ch := (Ch (clients s ! p))\<lparr>ch_closed := True\<rparr>\<rparr>"
      by simp_all
    have g: "GetMessage s' uid gap t env = Inr (Inl ERR_USER_NOT_FOUND, s')" for gap t env
      using uid gone by (rule GetMessage_error)
    have sm: "SendMessage s' uid msg t = (Inl ERR_SENDER_NOT_FOUND, s')"
      if "msg \<noteq> [] \<and> length msg \<le> 500" for msg t
      using that uid gone by (simp add: SendMessage_not_found)
    have l: "Leave s' uid = Inr (Inl ERR_USER_NOT_FOUND, s')"
      using uid gone by (rule Leave_error)
    have w: "await s' p d env = Inr (Inl ERR_USER_DISCONNECTED, s')"
      if "ch_buf (Ch (clients s ! p)) = []" for d env
      using that by (intro await_closed) (simp_all add: cl)
    show ?thesis
      apply (rule exI [of _ s'])
      apply (intro conjI allI impI)
      subgoal using s' by simp
      subgoal by (rule gone)
      subgoal by (rule cl)
      subgoal by (rule g)
      subgoal by (rule sm)
      subgoal by (rule l)
      subgoal by (rule w)
      done
  qed
  have 4: "5 * Minute <
          tick start (next_tick start (LastSeen (clients s ! p) + 5 * Minute)) -
            LastSeen (clients s ! p) \<and>
        tick start (next_tick start (LastSeen (clients s ! p) + 5 * Minute)) -
            LastSeen (clients s ! p) \<le> 6 * Minute"
    if "start \<le> LastSeen (clients s ! p)" for start
  proof -
    have "0 < Minute" by (simp add: Minute_def Second_def)
    with that have "start \<le> LastSeen (clients s ! p) + 5 * Minute" by simp
    from next_tick_bounds [OF this] show ?thesis by simp
  qed
  show ?thesis
    apply (intro conjI allI impI)
    subgoal by (rule 1 [THEN conjunct1])
    subgoal using 1 [THEN conjunct2] by simp
    subgoal by (rule 2)
    subgoal by (rule 3)
    subgoal by (rule 4 [THEN conjunct1])
    subgoal by (rule 4 [THEN conjunct2])
    done
qed

text \<open>
  In the service with \<open>a\<close> and \<open>b\<close>, both joined at time 0: along the run \<open>polling\<close>
  the client \<open>b\<close> stays registered while \<open>a\<close>, which never polls, is gone at the end. A
  tick just after minute 5 with no poll removes \<open>b\<close>, whose next \<^verbatim>\<open>GetMessage\<close> fails
  with \<open>ERR_USER_NOT_FOUND\<close>. With the ticker started at 0, the first tick past the
  threshold of a client seen at 0 is the one at minute 6.
\<close>

theorem idle_reaper_example:
  "polls_in_time ''b'' 0 polling \<and>
   (\<exists>s'. run two_clients polling = Inr s' \<and> map_of (streams s') ''b'' = Some 1 \<and>
      \<not> ch_closed (Ch (clients s' ! 1)) \<and> map_of (streams s') ''a'' = None) \<and>
   (\<exists>s'. cleanup two_clients (5 * Minute + 1) = Inr s' \<and> map_of (streams s') ''b'' = None \<and>
      ch_closed (Ch (clients s' ! 1)) \<and>
      GetMessage s' ''b'' [] (5 * Minute + 2) [] = Inr (Inl ERR_USER_NOT_FOUND, s') \<and>
      await s' 1 (5 * Minute + 2) [] = Inr (Inl ERR_USER_DISCONNECTED, s')) \<and>
   tick 0 (next_tick 0 (5 * Minute)) = 6 * Minute"
proof -
  note T = idle_reaper [OF two_clients_invariant two_clients_lookup(2)]
  let ?s' = "projr (run two_clients polling)"
  have seen: "LastSeen (clients two_clients ! 1) = 0" by code_simp
  have p: "polls_in_time ''b'' 0 polling" by code_simp
  have r: "run two_clients polling = Inr ?s'" by code_simp
  have a: "map_of (streams ?s') ''a'' = None" by code_simp
  have "0 \<le> LastSeen (clients two_clients ! 1)" by code_simp
  with p r have h1: "0 \<le> LastSeen (clients two_clients ! 1) \<and> polls_in_time ''b'' 0 polling \<and>
    run two_clients polling = Inr ?s'"
    by (intro conjI)
  note c1 = T [THEN conjunct1, rule_format, OF h1]
  have 1: "\<exists>s'. run two_clients polling = Inr s' \<and> map_of (streams s') ''b'' = Some 1 \<and>
      \<not> ch_closed (Ch (clients s' ! 1)) \<and> map_of (streams s') ''a'' = None"
    apply (rule exI [of _ ?s'])
    apply (intro conjI)
    subgoal by (rule r)
    subgoal by (rule c1 [THEN conjunct1])
    subgoal by (rule c1 [THEN conjunct2])
    subgoal by (rule a)
    done
  have stale: "5 * Minute < 5 * Minute + 1 - LastSeen (clients two_clients ! 1)"
    by code_simp
  have empty: "ch_buf (Ch (clients two_clients ! 1)) = []" by code_simp
  from T [THEN conjunct2, THEN conjunct2, THEN conjunct1, rule_format, OF stale]
  obtain s' where s': "cleanup two_clients (5 * Minute + 1) = Inr s' \<and>
           map_of (streams s') ''b'' = None \<and>
           clients s' ! 1 = (clients two_clients ! 1)
             \<lparr>Ch := (Ch (clients two_clients ! 1))\<lparr>ch_closed := True\<rparr>\<rparr> \<and>
           (\<forall>gap t env. GetMessage s' ''b'' gap t env = Inr (Inl ERR_USER_NOT_FOUND, s')) \<and>
           (\<forall>msg t. msg \<noteq> [] \<and> length msg \<le> 500 \<longrightarrow>
              SendMessage s' ''b'' msg t = (Inl ERR_SENDER_NOT_FOUND, s')) \<and>
           Leave s' ''b'' = Inr (Inl ERR_USER_NOT_FOUND, s') \<and>
           (\<forall>d env. ch_buf (Ch (clients two_clients ! 1)) = [] \<longrightarrow>
              await s' 1 d env = Inr (Inl ERR_USER_DISCONNECTED, s'))" ..
  have 2: "\<exists>s'. cleanup two_clients (5 * Minute + 1) = Inr s' \<and> map_of (streams s') ''b'' = None \<and>
      ch_closed (Ch (clients s' ! 1)) \<and>
      GetMessage s' ''b'' [] (5 * Minute + 2) [] = Inr (Inl ERR_USER_NOT_FOUND, s') \<and>
      await s' 1 (5 * Minute + 2) [] = Inr (Inl ERR_USER_DISCONNECTED, s')"
    apply (rule exI [of _ s'])
    apply (intro conjI)
    subgoal by (rule s' [THEN conjunct1])
    subgoal by (rule s' [THEN conjunct2, THEN conjunct1])
    subgoal using s' [THEN conjunct2, THEN conjunct2, THEN conjunct1] by simp
    subgoal by (rule s' [THEN conjunct2, THEN conjunct2, THEN conjunct2, THEN conjunct1,
          rule_format])
    subgoal by (rule s' [THEN conjunct2, THEN conjunct2, THEN conjunct2, THEN conjunct2,
          THEN conjunct2, THEN conjunct2, rule_format, OF empty])
    done
  have 3: "tick 0 (next_tick 0 (5 * Minute)) = 6 * Minute" by code_simp
  from p 1 2 3 show ?thesis by simp
qed

section \<open>A cleanup tick during a GetMessage call\<close>

text \<open>
  Claim C8 (the code does not do this). A client which calls \<^verbatim>\<open>GetMessage\<close> at
  least once within every five-minute window is never evicted, says the claim.
  \<^verbatim>\<open>GetMessage\<close> releases the read lock after
  its lookup and writes \<open>LastSeen\<close> later, holding no lock, while the cleanup loop reads
  \<open>LastSeen\<close> under the write lock; so a tick can come between the two. \<open>b\<close> joined at
  time 0 and polled at minute 4. Its next call starts before minute 9, within five
  minutes of the last one; the tick one nanosecond after minute 9 comes before the write
  of that call, finds a \<open>LastSeen\<close> of minute 4, more than five minutes old, and
  evicts \<open>b\<close>: the call in progress returns \<open>ERR_USER_DISCONNECTED\<close>, and \<open>b\<close> is
  no longer registered and its mailbox is closed. Had the same tick come after the
  write, \<open>b\<close> would have stayed and the call would have timed out. The last part
  is the whole run from the start of the service, with the third call made one second
  before minute 9.
\<close>

theorem C8_tick_before_write_evicts:
  "map_of (streams b_polled) ''b'' = Some 0 \<and> LastSeen (clients b_polled ! 0) = 4 * Minute \<and>
   (case GetMessage b_polled ''b'' tick_in_window (9 * Minute + 2) [] of
      Inl p \<Rightarrow> False
    | Inr (r, s') \<Rightarrow>
        r = Inl ERR_USER_DISCONNECTED \<and> map_of (streams s') ''b'' = None \<and>
        ch_closed (Ch (clients s' ! 0))) \<and>
   (case GetMessage b_polled ''b'' [] (9 * Minute) tick_in_window of
      Inl p \<Rightarrow> False
    | Inr (r, s') \<Rightarrow>
        r = Inl ERR_NO_MESSAGES \<and> map_of (streams s') ''b'' = Some 0 \<and>
        \<not> ch_closed (Ch (clients s' ! 0))) \<and>
   (case run NewChatService
           [(0, Act (DoJoin ''b'')), (4 * Minute, Poll ''b'' [] (4 * Minute) []),
            (9 * Minute - Second, Poll ''b'' tick_in_window (9 * Minute + 2) [])] of
      Inl p \<Rightarrow> False
    | Inr s' \<Rightarrow> map_of (streams s') ''b'' = None)"
  by code_simp

end
